theory Spec2Isabelle
  imports Main "HOL-Library.Sublist"
begin

section \<open>PartialCsvParser: a shallow embedding of include/PartialCsvParser.hpp\<close>

text \<open>
  The header file parses a delimited text file by byte ranges. The embedding follows
  the source function by function:
  \<^item> the memory-mapped file is a \<open>string\<close> (a list of bytes); a pointer into it is
    an offset of type \<open>nat\<close>;
  \<^item> every read through a pointer is \<open>read_at\<close>, which yields \<open>OutOfBounds\<close>
    outside the mapped bytes (undefined behaviour in C++), so that a result other
    than \<open>OutOfBounds\<close> means that every read stayed inside the buffer;
  \<^item> \<open>ASSERT\<close> is the macro of the source with assertions enabled: a failed
    condition ends the call with \<open>PCPAssertionFailed\<close> (the process aborts, or the
    exception of that name is thrown in the \<open>PCP_GTEST\<close> build);
  \<^item> \<open>size_t\<close> values are \<open>nat\<close>. A file size comes from \<open>st_size\<close>, so the
    sums \<open>cur_pos + line_length + 1\<close> of the source stay far below \<open>2 ^ 64\<close>
    and never wrap; the one place where the width shows is the sentinel
    \<open>(size_t) -1\<close>, which is \<open>SIZE_MAX\<close> below.
\<close>

subsection \<open>Errors\<close>

datatype error =
    PCPAssertionFailed
  | PCPError
  | PCPCsvError string
  | OutOfBounds

definition read_at :: "string \<Rightarrow> nat \<Rightarrow> error + char" where
  "read_at text i = (if i < length text then Inr (text ! i) else Inl OutOfBounds)"

text \<open>\<open>std::string(p, n)\<close>: the \<open>n\<close> bytes from offset \<open>p\<close>.\<close>

definition std_string :: "string \<Rightarrow> nat \<Rightarrow> nat \<Rightarrow> string" where
  "std_string text p n = take n (drop p text)"

subsection \<open>\<open>_get_current_line\<close>\<close>

text \<open>
  \<^verbatim>\<open>while (line_start > text && *(line_start - 1) != line_terminator) --line_start;\<close>
\<close>

fun search_line_start :: "string \<Rightarrow> char \<Rightarrow> nat \<Rightarrow> error + nat" where
  "search_line_start text line_terminator 0 = Inr 0"
| "search_line_start text line_terminator (Suc i) =
     (case read_at text i of
        Inl e \<Rightarrow> Inl e
      | Inr c \<Rightarrow>
          (if c \<noteq> line_terminator then search_line_start text line_terminator i
           else Inr (Suc i)))"

text \<open>
  \<^verbatim>\<open>while (line_end < text + text_length_byte && *line_end != line_terminator) ++line_end;\<close>
\<close>

function search_line_end :: "string \<Rightarrow> nat \<Rightarrow> char \<Rightarrow> nat \<Rightarrow> error + nat" where
  "search_line_end text text_length_byte line_terminator line_end =
     (if line_end < text_length_byte then
        (case read_at text line_end of
           Inl e \<Rightarrow> Inl e
         | Inr c \<Rightarrow>
             (if c \<noteq> line_terminator
              then search_line_end text text_length_byte line_terminator (Suc line_end)
              else Inr line_end))
      else Inr line_end)"
  by pat_completeness auto
termination
  by (relation "measure (\<lambda>(text, n, lt, e). n - e)") auto

declare search_line_end.simps [simp del]

text \<open>
  The out-parameters \<open>line\<close> and \<open>line_length_byte\<close> are the pair returned; \<open>line\<close>
  is the offset of the pointer from \<open>text\<close>. \<open>ASSERT(text)\<close> and
  \<open>ASSERT(0 <= current_pos)\<close> cannot fail here (the mapping exists, \<open>size_t\<close> is
  unsigned).
\<close>

definition get_current_line :: "string \<Rightarrow> nat \<Rightarrow> nat \<Rightarrow> char \<Rightarrow> error + nat \<times> nat" where
  "get_current_line text text_length_byte current_pos line_terminator =
     (if \<not> 1 \<le> text_length_byte then Inl PCPAssertionFailed
      else if \<not> current_pos \<le> text_length_byte - 1 then Inl PCPAssertionFailed
      else
        (case search_line_start text line_terminator current_pos of
           Inl e \<Rightarrow> Inl e
         | Inr line_start \<Rightarrow>
             (case search_line_end text text_length_byte line_terminator current_pos of
                Inl e \<Rightarrow> Inl e
              | Inr line_end \<Rightarrow> Inr (line_start, line_end - line_start))))"

subsection \<open>\<open>_split\<close>\<close>

text \<open>
  The loop of \<open>_split\<close> with its three variables: \<open>p_beg\<close> and \<open>p_end\<close> as offsets
  from \<open>str\<close>, and the vector \<open>ret\<close>.
\<close>

function split_loop ::
  "string \<Rightarrow> nat \<Rightarrow> char \<Rightarrow> nat \<Rightarrow> nat \<Rightarrow> string list \<Rightarrow> error + string list" where
  "split_loop str len delimiter p_beg p_end ret =
     (if p_end < len then
        (case read_at str p_end of
           Inl e \<Rightarrow> Inl e
         | Inr c \<Rightarrow>
             (if c = delimiter
              then split_loop str len delimiter (p_end + 1) (p_end + 1)
                     (ret @ [std_string str p_beg (p_end - p_beg)])
              else split_loop str len delimiter p_beg (p_end + 1) ret))
      else Inr (ret @ [std_string str p_beg (p_end - p_beg)]))"
  by pat_completeness auto
termination
  by (relation "measure (\<lambda>(str, len, d, b, e, ret). len - e)") auto

declare split_loop.simps [simp del]

text \<open>\<open>str\<close> is the buffer from the pointer on; \<open>ASSERT(len >= 0)\<close> cannot fail.\<close>

definition pcp_split :: "string \<Rightarrow> nat \<Rightarrow> char \<Rightarrow> error + string list" where
  "pcp_split str len delimiter = split_loop str len delimiter 0 0 []"


subsection \<open>Facts about the two helpers that the later definitions rest on\<close>

lemma search_line_start_le:
  "search_line_start text lt pos = Inr s \<Longrightarrow> s \<le> pos"
proof (induction pos)
  case 0
  then show ?case by simp
next
  case (Suc i)
  then show ?case
    by (auto split: sum.splits if_splits)
qed

lemma search_line_end_ge:
  "search_line_end text n lt e = Inr e' \<Longrightarrow> e \<le> e'"
proof (induction "n - e" arbitrary: e)
  case 0
  then show ?case by (subst (asm) search_line_end.simps) simp
next
  case (Suc k)
  then have "e < n" by arith
  with Suc.prems have
    "(case read_at text e of
        Inl err \<Rightarrow> Inl err
      | Inr c \<Rightarrow> (if c \<noteq> lt then search_line_end text n lt (Suc e) else Inr e)) = Inr e'"
    by (subst (asm) search_line_end.simps) simp
  then consider "search_line_end text n lt (Suc e) = Inr e'" | "e = e'"
    by (auto split: sum.splits if_splits)
  then show ?case
  proof cases
    case 1
    have "k = n - Suc e" using Suc.hyps(2) by simp
    from Suc.hyps(1)[OF this 1] show ?thesis by simp
  next
    case 2
    then show ?thesis by simp
  qed
qed

lemma get_current_line_bounds:
  assumes "get_current_line text n pos lt = Inr (s, l)"
  shows "s \<le> pos" and "pos \<le> s + l"
proof -
  from assms obtain e where
    s: "search_line_start text lt pos = Inr s" and
    e: "search_line_end text n lt pos = Inr e" and l: "l = e - s"
    by (auto simp: get_current_line_def split: if_splits sum.splits)
  from s show "s \<le> pos" by (rule search_line_start_le)
  moreover from e have "pos \<le> e" by (rule search_line_end_ge)
  ultimately show "pos \<le> s + l" using l by simp
qed

subsection \<open>\<open>CsvConfig\<close>\<close>

text \<open>The largest \<open>size_t\<close>, of 64 bits.\<close>

definition SIZE_MAX :: nat where
  "SIZE_MAX = 2 ^ 64 - 1"

text \<open>
  The value of a \<open>char\<close> in the comparisons \<open>0 <= c\<close> and \<open>c <= 127\<close>. Whether
  \<open>char\<close> is signed is up to the platform, which \<open>char_is_signed\<close> stands for.
\<close>

definition char_value :: "bool \<Rightarrow> char \<Rightarrow> int" where
  "char_value char_is_signed c =
     (if char_is_signed \<and> 128 \<le> (of_char c :: int) then of_char c - 256 else of_char c)"

text \<open>
  The members of the class that parsing reads (\<open>filepath\<close> and \<open>fd\<close> are left
  out). \<open>header_length\<close> is assigned only when there is a header line: \<open>None\<close> is
  the member left without a value.
\<close>

record CsvConfig =
  has_header_line :: bool
  field_terminator :: char
  line_terminator :: char
  csv_size :: nat
  csv_text :: string
  headers :: "string list"
  header_length :: "nat option"
  n_columns :: nat

text \<open>
  The constructor. \<open>file\<close> is what \<open>open\<close>, \<open>fstat\<close> and \<open>mmap\<close> give for
  \<open>filepath\<close>: the bytes of the file, or \<open>None\<close> when one of the calls fails and
  the constructor throws \<open>PCPError\<close>. The assertions on the two terminators come
  first, as in the source.
\<close>

definition CsvConfig_new ::
  "bool \<Rightarrow> string option \<Rightarrow> bool \<Rightarrow> char \<Rightarrow> char \<Rightarrow> error + CsvConfig" where
  "CsvConfig_new char_is_signed file has_header_line' field_terminator' line_terminator' =
     (if \<not> 0 \<le> char_value char_is_signed field_terminator' then Inl PCPAssertionFailed
      else if \<not> char_value char_is_signed field_terminator' \<le> 127 then Inl PCPAssertionFailed
      else if \<not> 0 \<le> char_value char_is_signed line_terminator' then Inl PCPAssertionFailed
      else if \<not> char_value char_is_signed line_terminator' \<le> 127 then Inl PCPAssertionFailed
      else
        (case file of
           None \<Rightarrow> Inl PCPError
         | Some text \<Rightarrow>
             (case get_current_line text (length text) 0 line_terminator' of
                Inl e \<Rightarrow> Inl e
              | Inr (line, line_length) \<Rightarrow>
                  (case pcp_split (drop line text) line_length field_terminator' of
                     Inl e \<Rightarrow> Inl e
                   | Inr columns \<Rightarrow>
                       Inr \<lparr>has_header_line = has_header_line',
                            field_terminator = field_terminator',
                            line_terminator = line_terminator',
                            csv_size = length text,
                            csv_text = text,
                            headers = (if has_header_line' then columns else []),
                            header_length = (if has_header_line' then Some line_length else None),
                            n_columns = length columns\<rparr>))))"

definition filesize :: "CsvConfig \<Rightarrow> nat" where
  "filesize cfg = csv_size cfg"

definition content :: "CsvConfig \<Rightarrow> string" where
  "content cfg = csv_text cfg"

definition get_n_columns :: "CsvConfig \<Rightarrow> nat" where
  "get_n_columns cfg = n_columns cfg"

text \<open>
  With a header line the constructor has assigned \<open>header_length\<close>; no constructed
  configuration reaches the branch \<open>None\<close>.
\<close>

definition body_offset :: "CsvConfig \<Rightarrow> nat" where
  "body_offset cfg =
     (if \<not> has_header_line cfg then 0
      else (case header_length cfg of Some n \<Rightarrow> n + 1 | None \<Rightarrow> 0))"

definition get_headers :: "CsvConfig \<Rightarrow> error + string list" where
  "get_headers cfg = (if \<not> has_header_line cfg then Inl PCPAssertionFailed else Inr (headers cfg))"

definition get_field_terminator :: "CsvConfig \<Rightarrow> char" where
  "get_field_terminator cfg = field_terminator cfg"

definition get_line_terminator :: "CsvConfig \<Rightarrow> char" where
  "get_line_terminator cfg = line_terminator cfg"

subsection \<open>\<open>PartialCsvParser\<close>\<close>

text \<open>
  The parser holds a reference to the configuration, which nothing changes after its
  construction; the record holds its value.
\<close>

record PartialCsvParser =
  csv_config :: CsvConfig
  parse_from :: nat
  parse_to :: nat
  cur_pos :: nat

definition PARSE_FROM_BODY_BEGINNING :: nat where
  "PARSE_FROM_BODY_BEGINNING = SIZE_MAX"

definition PARSE_TO_FILE_END :: nat where
  "PARSE_TO_FILE_END = SIZE_MAX"

text \<open>
  The constructor: a sentinel argument is replaced, \<open>filesize - 1\<close> wrapping around
  for an empty file, then the two assertions. The two bounds are not compared.
\<close>

definition PartialCsvParser_new :: "CsvConfig \<Rightarrow> nat \<Rightarrow> nat \<Rightarrow> error + PartialCsvParser" where
  "PartialCsvParser_new cfg parse_from' parse_to' =
     (let this_parse_from =
            (if parse_from' = PARSE_FROM_BODY_BEGINNING then body_offset cfg else parse_from');
          this_parse_to =
            (if parse_to' = PARSE_TO_FILE_END
             then (if filesize cfg = 0 then SIZE_MAX else filesize cfg - 1)
             else parse_to')
      in if \<not> body_offset cfg \<le> this_parse_from then Inl PCPAssertionFailed
         else if \<not> this_parse_to < filesize cfg then Inl PCPAssertionFailed
         else Inr \<lparr>csv_config = cfg, parse_from = this_parse_from,
                   parse_to = this_parse_to, cur_pos = this_parse_from\<rparr>)"

text \<open>\<open>ss << n\<close> for a \<open>size_t\<close>: the decimal digits of \<open>n\<close>.\<close>

definition digit_char :: "nat \<Rightarrow> char" where
  "digit_char n = ''0123456789'' ! n"

function decimal :: "nat \<Rightarrow> string" where
  "decimal n = (if n < 10 then [digit_char n] else decimal (n div 10) @ [digit_char (n mod 10)])"
  by pat_completeness auto
termination
  by (relation "measure id") auto

declare decimal.simps [simp del]

definition mismatch_message :: "nat \<Rightarrow> nat \<Rightarrow> string \<Rightarrow> string" where
  "mismatch_message n_found n_first line =
     ''The following line has '' @ decimal n_found @
     '' columns, while the first line has '' @ decimal n_first @
     '' columns.'' @ [CHR ''\<newline>''] @ line"

text \<open>
  One iteration of the loop of \<open>get_row\<close>: it returns from the call, with a row, the
  empty vector or an exception, and the parser as the iteration leaves it, or it goes
  on to the next iteration. The cursor is moved before the line is split, so a
  thrown \<open>PCPCsvError\<close> leaves it moved.
\<close>

datatype loop_step =
    Return "error + string list" PartialCsvParser
  | Next_iteration PartialCsvParser

definition get_row_body :: "PartialCsvParser \<Rightarrow> loop_step" where
  "get_row_body p =
     (case get_current_line (content (csv_config p)) (filesize (csv_config p)) (cur_pos p)
             (get_line_terminator (csv_config p)) of
        Inl e \<Rightarrow> Return (Inl e) p
      | Inr (line, line_length) \<Rightarrow>
          if cur_pos p = line then
            (let p' = p\<lparr>cur_pos := cur_pos p + line_length + 1\<rparr> in
             case pcp_split (drop line (content (csv_config p))) line_length
                    (get_field_terminator (csv_config p)) of
               Inl e \<Rightarrow> Return (Inl e) p'
             | Inr columns \<Rightarrow>
                 if length columns \<noteq> get_n_columns (csv_config p)
                 then Return (Inl (PCPCsvError
                        (mismatch_message (length columns) (get_n_columns (csv_config p))
                           (std_string (content (csv_config p)) line line_length)))) p'
                 else Return (Inr columns) p')
          else if parse_to p < line + line_length + 1 then Return (Inr []) p
          else if parse_to p \<ge> line + line_length + 1
            then Next_iteration (p\<lparr>cur_pos := line + line_length + 1\<rparr>)
          else Next_iteration p)"

lemma get_row_body_Next:
  assumes "get_row_body p = Next_iteration p'"
  shows "\<exists>line line_length.
           get_current_line (content (csv_config p)) (filesize (csv_config p)) (cur_pos p)
             (get_line_terminator (csv_config p)) = Inr (line, line_length) \<and>
           line < cur_pos p \<and> line + line_length + 1 \<le> parse_to p \<and>
           p' = p\<lparr>cur_pos := line + line_length + 1\<rparr>"
proof -
  from assms obtain line line_length where
    g: "get_current_line (content (csv_config p)) (filesize (csv_config p)) (cur_pos p)
          (get_line_terminator (csv_config p)) = Inr (line, line_length)"
    by (auto simp: get_row_body_def split: sum.splits)
  from get_current_line_bounds(1)[OF g] have "line \<le> cur_pos p" .
  with assms g show ?thesis
    by (auto simp: get_row_body_def Let_def split: sum.splits if_splits)
qed

lemma get_row_body_progress:
  assumes "get_row_body p = Next_iteration p'"
  shows "cur_pos p < cur_pos p'" and "cur_pos p' \<le> parse_to p" and "parse_to p' = parse_to p"
    and "csv_config p' = csv_config p"
proof -
  from get_row_body_Next[OF assms] obtain line line_length where
    g: "get_current_line (content (csv_config p)) (filesize (csv_config p)) (cur_pos p)
          (get_line_terminator (csv_config p)) = Inr (line, line_length)"
    and le: "line + line_length + 1 \<le> parse_to p"
    and p': "p' = p\<lparr>cur_pos := line + line_length + 1\<rparr>"
    by blast
  from get_current_line_bounds(2)[OF g] p' show "cur_pos p < cur_pos p'" by simp
  from le p' show "cur_pos p' \<le> parse_to p" by simp
  from p' show "parse_to p' = parse_to p" and "csv_config p' = csv_config p" by simp_all
qed

text \<open>\<open>get_row\<close>: the loop \<open>while (cur_pos <= parse_to)\<close> around the iteration.\<close>

function get_row :: "PartialCsvParser \<Rightarrow> (error + string list) \<times> PartialCsvParser" where
  "get_row p =
     (if cur_pos p \<le> parse_to p then
        (case get_row_body p of
           Return r p' \<Rightarrow> (r, p')
         | Next_iteration p' \<Rightarrow> get_row p')
      else (Inr [], p))"
  by pat_completeness auto
termination
proof (relation "measure (\<lambda>p. Suc (parse_to p) - cur_pos p)")
  show "wf (measure (\<lambda>p. Suc (parse_to p) - cur_pos p))" by simp
next
  fix p p'
  assume "cur_pos p \<le> parse_to p" and "get_row_body p = Next_iteration p'"
  from get_row_body_progress[OF this(2)]
  show "(p', p) \<in> measure (\<lambda>p. Suc (parse_to p) - cur_pos p)"
    by simp
qed

declare get_row.simps [simp del]

subsection \<open>Calling \<open>get_row\<close> until it returns the empty vector\<close>

lemma pcp_split_not_Nil_aux:
  "split_loop str len d b e ret = Inr fs \<Longrightarrow> fs \<noteq> []"
proof (induction "len - e" arbitrary: b e ret)
  case 0
  then show ?case by (subst (asm) split_loop.simps) auto
next
  case (Suc k)
  then have elt: "e < len" by arith
  with Suc.prems have
    "(case read_at str e of
        Inl err \<Rightarrow> Inl err
      | Inr c \<Rightarrow>
          (if c = d
           then split_loop str len d (e + 1) (e + 1) (ret @ [std_string str b (e - b)])
           else split_loop str len d b (e + 1) ret)) = Inr fs"
    by (subst (asm) split_loop.simps) simp
  then consider
      "split_loop str len d (Suc e) (Suc e) (ret @ [std_string str b (e - b)]) = Inr fs"
    | "split_loop str len d b (Suc e) ret = Inr fs"
    by (auto split: sum.splits if_splits)
  then show ?case
  proof cases
    case 1
    have "k = len - Suc e" using Suc.hyps(2) by simp
    from Suc.hyps(1)[OF this 1] show ?thesis .
  next
    case 2
    have "k = len - Suc e" using Suc.hyps(2) by simp
    from Suc.hyps(1)[OF this 2] show ?thesis .
  qed
qed

lemma pcp_split_not_Nil: "pcp_split str len d = Inr fs \<Longrightarrow> fs \<noteq> []"
  unfolding pcp_split_def by (rule pcp_split_not_Nil_aux)

text \<open>
  A caller that calls \<open>get_row\<close> until it returns the empty vector. A
  \<open>PCPCsvError\<close> is caught and the calls go on; a failed assertion or a read outside
  the buffer ends the calls.
\<close>

definition is_recoverable :: "error + string list \<Rightarrow> bool" where
  "is_recoverable r =
     (case r of
        Inr row \<Rightarrow> True
      | Inl (PCPCsvError msg) \<Rightarrow> True
      | Inl e \<Rightarrow> False)"

lemma search_line_start_error:
  "search_line_start text lt pos = Inl e \<Longrightarrow> e = OutOfBounds"
  by (induction pos) (auto simp: read_at_def split: sum.splits if_splits)

lemma search_line_end_error:
  "search_line_end text n lt pos = Inl e \<Longrightarrow> e = OutOfBounds"
proof (induction "n - pos" arbitrary: pos)
  case 0
  then show ?case by (subst (asm) search_line_end.simps) simp
next
  case (Suc k)
  then have "pos < n" by arith
  with Suc.prems have
    "(case read_at text pos of
        Inl err \<Rightarrow> Inl err
      | Inr c \<Rightarrow> (if c \<noteq> lt then search_line_end text n lt (Suc pos) else Inr pos)) = Inl e"
    by (subst (asm) search_line_end.simps) simp
  then consider "search_line_end text n lt (Suc pos) = Inl e" | "e = OutOfBounds"
    by (auto simp: read_at_def split: sum.splits if_splits)
  then show ?case
  proof cases
    case 1
    have "k = n - Suc pos" using Suc.hyps(2) by simp
    from Suc.hyps(1)[OF this 1] show ?thesis .
  qed
qed

lemma get_current_line_error:
  "get_current_line text n pos lt = Inl e \<Longrightarrow> e = PCPAssertionFailed \<or> e = OutOfBounds"
  by (auto simp: get_current_line_def split: if_splits sum.splits
      dest: search_line_start_error search_line_end_error)

lemma split_loop_error:
  "split_loop str len d b e ret = Inl err \<Longrightarrow> err = OutOfBounds"
proof (induction "len - e" arbitrary: b e ret)
  case 0
  then show ?case by (subst (asm) split_loop.simps) auto
next
  case (Suc k)
  then have elt: "e < len" by arith
  with Suc.prems have
    "(case read_at str e of
        Inl err \<Rightarrow> Inl err
      | Inr c \<Rightarrow>
          (if c = d
           then split_loop str len d (e + 1) (e + 1) (ret @ [std_string str b (e - b)])
           else split_loop str len d b (e + 1) ret)) = Inl err"
    by (subst (asm) split_loop.simps) simp
  then consider
      "split_loop str len d (Suc e) (Suc e) (ret @ [std_string str b (e - b)]) = Inl err"
    | "split_loop str len d b (Suc e) ret = Inl err"
    | "err = OutOfBounds"
    by (auto simp: read_at_def split: sum.splits if_splits)
  then show ?case
  proof cases
    case 1
    have "k = len - Suc e" using Suc.hyps(2) by simp
    from Suc.hyps(1)[OF this 1] show ?thesis .
  next
    case 2
    have "k = len - Suc e" using Suc.hyps(2) by simp
    from Suc.hyps(1)[OF this 2] show ?thesis .
  qed
qed

lemma pcp_split_error: "pcp_split str len d = Inl err \<Longrightarrow> err = OutOfBounds"
  unfolding pcp_split_def by (rule split_loop_error)

lemma get_row_body_Return:
  assumes "get_row_body p = Return r p'"
  shows "csv_config p' = csv_config p" and "parse_to p' = parse_to p"
    and "parse_from p' = parse_from p" and "cur_pos p \<le> cur_pos p'"
    and "r \<noteq> Inr [] \<Longrightarrow> is_recoverable r \<Longrightarrow> cur_pos p < cur_pos p'"
  using assms
  by (auto simp: get_row_body_def Let_def is_recoverable_def
      split: sum.splits if_splits prod.splits
      dest: get_current_line_error pcp_split_error)

lemma get_row_state:
  assumes "get_row p = (r, p')"
  shows "csv_config p' = csv_config p \<and> parse_to p' = parse_to p \<and>
         parse_from p' = parse_from p \<and> cur_pos p \<le> cur_pos p' \<and>
         (r \<noteq> Inr [] \<and> is_recoverable r \<longrightarrow> cur_pos p \<le> parse_to p \<and> cur_pos p < cur_pos p')"
  using assms
proof (induction p rule: get_row.induct)
  case (1 p)
  show ?case
  proof (cases "cur_pos p \<le> parse_to p")
    case False
    with "1.prems" show ?thesis by (subst (asm) get_row.simps) auto
  next
    case True
    show ?thesis
    proof (cases "get_row_body p")
      case (Return r0 p0)
      with True "1.prems" have "r0 = r" "p0 = p'"
        by (subst (asm) get_row.simps, simp)+
      with Return have b: "get_row_body p = Return r p'" by simp
      from get_row_body_Return[OF b] True show ?thesis by auto
    next
      case (Next_iteration p0)
      with True "1.prems" have g: "get_row p0 = (r, p')"
        by (subst (asm) get_row.simps) simp
      have "parse_from p0 = parse_from p"
        using get_row_body_Next[OF Next_iteration] by auto
      with "1.IH"[OF True Next_iteration g] get_row_body_progress[OF Next_iteration] True
      show ?thesis by auto
    qed
  qed
qed

function get_rows :: "PartialCsvParser \<Rightarrow> (error + string list) list" where
  "get_rows p =
     (case get_row p of
        (r, p') \<Rightarrow>
          if r = Inr [] then []
          else if \<not> is_recoverable r then [r]
          else r # get_rows p')"
  by pat_completeness auto
termination
proof (relation "measure (\<lambda>p. Suc (parse_to p) - cur_pos p)")
  show "wf (measure (\<lambda>p. Suc (parse_to p) - cur_pos p))" by simp
next
  fix p r p'
  assume "(r, p') = get_row p" and r: "r \<noteq> Inr []" "\<not> \<not> is_recoverable r"
  then have "get_row p = (r, p')" by simp
  from get_row_state[OF this] r
  show "(p', p) \<in> measure (\<lambda>p. Suc (parse_to p) - cur_pos p)"
    by auto
qed

declare get_rows.simps [simp del]

section \<open>Reference notions the claims are stated against\<close>

text \<open>
  The fields of a byte sequence, read left to right: \<open>cur\<close> is the field being
  read, a delimiter closes it.
\<close>

fun spec_fields :: "char \<Rightarrow> string \<Rightarrow> string \<Rightarrow> string list" where
  "spec_fields d cur [] = [cur]"
| "spec_fields d cur (c # cs) =
     (if c = d then cur # spec_fields d [] cs else spec_fields d (cur @ [c]) cs)"

text \<open>The fields written back with one delimiter between neighbours.\<close>

fun join_fields :: "char \<Rightarrow> string list \<Rightarrow> string" where
  "join_fields d [] = []"
| "join_fields d [f] = f"
| "join_fields d (f # g # fs) = f @ d # join_fields d (g # fs)"

text \<open>
  Offset \<open>s\<close> is the first byte of a line: it is the start of the buffer or the byte
  before it is the line terminator.
\<close>

definition is_line_start :: "string \<Rightarrow> char \<Rightarrow> nat \<Rightarrow> bool" where
  "is_line_start text lt s = (s = 0 \<or> text ! (s - 1) = lt)"

text \<open>The bytes of the line that starts at \<open>s\<close>, without its terminator.\<close>

definition spec_line :: "string \<Rightarrow> char \<Rightarrow> nat \<Rightarrow> string" where
  "spec_line text lt s = takeWhile (\<lambda>c. c \<noteq> lt) (drop s text)"

text \<open>
  What parsing the line at \<open>s\<close> gives: its fields, or the content error when their
  number is not the number of columns of the first line.
\<close>

definition spec_row :: "CsvConfig \<Rightarrow> nat \<Rightarrow> error + string list" where
  "spec_row cfg s =
     (let line = spec_line (csv_text cfg) (line_terminator cfg) s;
          fields = spec_fields (field_terminator cfg) [] line
      in if length fields \<noteq> n_columns cfg
         then Inl (PCPCsvError (mismatch_message (length fields) (n_columns cfg) line))
         else Inr fields)"

text \<open>The lines whose first byte lies in the closed range \<open>[from, to]\<close>, in file order.\<close>

definition owned_line_starts :: "CsvConfig \<Rightarrow> nat \<Rightarrow> nat \<Rightarrow> nat list" where
  "owned_line_starts cfg from to =
     filter (is_line_start (csv_text cfg) (line_terminator cfg)) [from..<Suc to]"

definition spec_rows :: "CsvConfig \<Rightarrow> nat \<Rightarrow> nat \<Rightarrow> (error + string list) list" where
  "spec_rows cfg from to = map (spec_row cfg) (owned_line_starts cfg from to)"

text \<open>
  A partition of the byte interval \<open>[lo, hi)\<close> into contiguous closed ranges
  \<open>(from, to)\<close>: each range starts where the one before it ended, the first at
  \<open>lo\<close>, and the last ends at \<open>hi - 1\<close>. A range may be empty, which is
  \<open>from = to + 1\<close>; the empty interval has the empty partition.
\<close>

fun is_partition :: "nat \<Rightarrow> nat \<Rightarrow> (nat \<times> nat) list \<Rightarrow> bool" where
  "is_partition lo hi [] = (hi \<le> lo)"
| "is_partition lo hi ((f, t) # rs) =
     (f = lo \<and> f \<le> Suc t \<and> t < hi \<and> is_partition (Suc t) hi rs)"

text \<open>One parser on one range, called until it returns the empty vector.\<close>

definition parse_range :: "CsvConfig \<Rightarrow> nat \<times> nat \<Rightarrow> (error + string list) list" where
  "parse_range cfg r =
     (case PartialCsvParser_new cfg (fst r) (snd r) of
        Inl e \<Rightarrow> [Inl e]
      | Inr p \<Rightarrow> get_rows p)"

text \<open>
  The loop of \<open>get_row\<close> with a bound on the number of iterations: \<open>None\<close> when
  the bound is used up before the loop ends.
\<close>

fun get_row_fuel ::
  "nat \<Rightarrow> PartialCsvParser \<Rightarrow> ((error + string list) \<times> PartialCsvParser) option" where
  "get_row_fuel fuel p =
     (if cur_pos p \<le> parse_to p then
        (case fuel of
           0 \<Rightarrow> None
         | Suc fuel' \<Rightarrow>
             (case get_row_body p of
                Return r p' \<Rightarrow> Some (r, p')
              | Next_iteration p' \<Rightarrow> get_row_fuel fuel' p'))
      else Some (Inr [], p))"

declare get_row_fuel.simps [simp del]

text \<open>The parser after \<open>k\<close> calls of \<open>get_row\<close>.\<close>

fun after_calls :: "nat \<Rightarrow> PartialCsvParser \<Rightarrow> PartialCsvParser" where
  "after_calls 0 p = p"
| "after_calls (Suc k) p = after_calls k (snd (get_row p))"

text \<open>
  The states a parser can be in: its configuration describes the mapped buffer, and
  \<open>parse_to\<close> lies inside it (the assertion of the constructor).
\<close>

definition parser_ok :: "PartialCsvParser \<Rightarrow> bool" where
  "parser_ok p =
     (csv_size (csv_config p) = length (csv_text (csv_config p)) \<and>
      parse_to p < csv_size (csv_config p))"

subsection \<open>Example inputs\<close>

text \<open>The file of three lines \<open>a,b,c\<close>, \<open>1,2,3\<close>, \<open>4,5,6\<close> with a header line.\<close>

definition example_config :: CsvConfig where
  "example_config =
     \<lparr>has_header_line = True, field_terminator = CHR '','', line_terminator = CHR ''\<newline>'',
      csv_size = 18, csv_text = ''a,b,c\<newline>1,2,3\<newline>4,5,6\<newline>'',
      headers = [''a'', ''b'', ''c''], header_length = Some 5, n_columns = 3\<rparr>"

text \<open>A file of the header line \<open>a,b,c\<close> alone, without a line terminator.\<close>

definition header_only_config :: CsvConfig where
  "header_only_config =
     \<lparr>has_header_line = True, field_terminator = CHR '','', line_terminator = CHR ''\<newline>'',
      csv_size = 5, csv_text = ''a,b,c'',
      headers = [''a'', ''b'', ''c''], header_length = Some 5, n_columns = 3\<rparr>"

text \<open>The file of the lines \<open>a,b,c\<close>, \<open>1,2\<close>, \<open>4,5,6\<close>; its second line lacks a field.\<close>

definition malformed_config :: CsvConfig where
  "malformed_config =
     \<lparr>has_header_line = True, field_terminator = CHR '','', line_terminator = CHR ''\<newline>'',
      csv_size = 16, csv_text = ''a,b,c\<newline>1,2\<newline>4,5,6\<newline>'',
      headers = [''a'', ''b'', ''c''], header_length = Some 5, n_columns = 3\<rparr>"

section \<open>The helpers meet their reference notions\<close>

lemma search_line_start_spec:
  "pos \<le> length text \<Longrightarrow>
   \<exists>s. search_line_start text lt pos = Inr s \<and> s \<le> pos \<and>
       (s = 0 \<or> (0 < s \<and> text ! (s - 1) = lt)) \<and>
       (\<forall>i. s \<le> i \<and> i < pos \<longrightarrow> text ! i \<noteq> lt)"
proof (induction pos)
  case 0
  then show ?case by simp
next
  case (Suc i)
  then have ilt: "i < length text" by simp
  show ?case
  proof (cases "text ! i = lt")
    case True
    with ilt show ?thesis by (auto simp add: read_at_def)
  next
    case False
    from Suc ilt obtain s where s: "search_line_start text lt i = Inr s" "s \<le> i"
      "s = 0 \<or> (0 < s \<and> text ! (s - 1) = lt)" "\<forall>j. s \<le> j \<and> j < i \<longrightarrow> text ! j \<noteq> lt"
      by auto
    have "\<forall>j. s \<le> j \<and> j < Suc i \<longrightarrow> text ! j \<noteq> lt"
      using s(4) False by (auto simp: less_Suc_eq)
    with s False ilt show ?thesis by (simp add: read_at_def)
  qed
qed

lemma search_line_end_spec:
  "e \<le> length text \<Longrightarrow>
   search_line_end text (length text) lt e =
     Inr (e + length (takeWhile (\<lambda>c. c \<noteq> lt) (drop e text)))"
proof (induction "length text - e" arbitrary: e)
  case 0
  then show ?case by (subst search_line_end.simps) simp
next
  case (Suc k)
  then have elt: "e < length text" by simp
  then have d: "drop e text = text ! e # drop (Suc e) text"
    by (simp add: Cons_nth_drop_Suc)
  show ?case
  proof (cases "text ! e = lt")
    case True
    with elt d show ?thesis
      by (subst search_line_end.simps) (simp add: read_at_def)
  next
    case False
    from Suc elt have "search_line_end text (length text) lt (Suc e) =
        Inr (Suc e + length (takeWhile (\<lambda>c. c \<noteq> lt) (drop (Suc e) text)))"
      by simp
    with False elt d show ?thesis
      by (subst search_line_end.simps) (simp add: read_at_def)
  qed
qed

lemma takeWhile_drop_facts:
  assumes k_def: "k = length (takeWhile P (drop pos text))"
    and "pos \<le> length text"
  shows "pos + k \<le> length text"
    and "\<forall>i. pos \<le> i \<and> i < pos + k \<longrightarrow> P (text ! i)"
    and "pos + k = length text \<or> (pos + k < length text \<and> \<not> P (text ! (pos + k)))"
proof -
  have kle: "k \<le> length (drop pos text)"
    unfolding k_def by (rule length_takeWhile_le)
  with assms show 1: "pos + k \<le> length text" by simp
  show "\<forall>i. pos \<le> i \<and> i < pos + k \<longrightarrow> P (text ! i)"
  proof (intro allI impI)
    fix i assume i: "pos \<le> i \<and> i < pos + k"
    then have j: "i - pos < length (takeWhile P (drop pos text))"
      unfolding k_def by linarith
    then have "takeWhile P (drop pos text) ! (i - pos) \<in> set (takeWhile P (drop pos text))"
      by (rule nth_mem)
    then have "P (takeWhile P (drop pos text) ! (i - pos))"
      by (rule set_takeWhileD[THEN conjunct2])
    moreover have "takeWhile P (drop pos text) ! (i - pos) = drop pos text ! (i - pos)"
      using j by (rule takeWhile_nth)
    moreover have "drop pos text ! (i - pos) = text ! i"
      using i assms by simp
    ultimately show "P (text ! i)" by simp
  qed
  show "pos + k = length text \<or> (pos + k < length text \<and> \<not> P (text ! (pos + k)))"
  proof (cases "pos + k = length text")
    case False
    with 1 have lt: "pos + k < length text" by simp
    then have "k < length (drop pos text)" by simp
    then have "\<not> P (drop pos text ! k)"
      unfolding k_def by (rule nth_length_takeWhile)
    with lt assms show ?thesis by simp
  qed simp
qed

lemma get_current_line_spec:
  assumes "pos < length text"
  shows "\<exists>s. get_current_line text (length text) pos lt =
            Inr (s, pos + length (spec_line text lt pos) - s) \<and>
          s \<le> pos \<and> (s = 0 \<or> (0 < s \<and> text ! (s - 1) = lt)) \<and>
          (\<forall>i. s \<le> i \<and> i < pos \<longrightarrow> text ! i \<noteq> lt)"
proof -
  from assms have "pos \<le> length text" by simp
  from search_line_start_spec[OF this, of lt] obtain s where
    s: "search_line_start text lt pos = Inr s" "s \<le> pos"
       "s = 0 \<or> (0 < s \<and> text ! (s - 1) = lt)" "\<forall>i. s \<le> i \<and> i < pos \<longrightarrow> text ! i \<noteq> lt"
    by blast
  have "get_current_line text (length text) pos lt =
      Inr (s, pos + length (spec_line text lt pos) - s)"
    using assms s(1) by (simp add: get_current_line_def search_line_end_spec spec_line_def)
  with s show ?thesis by blast
qed

lemma split_loop_spec:
  "b \<le> e \<Longrightarrow> e \<le> len \<Longrightarrow> len \<le> length str \<Longrightarrow>
   split_loop str len d b e ret =
     Inr (ret @ spec_fields d (std_string str b (e - b)) (drop e (take len str)))"
proof (induction "len - e" arbitrary: b e ret)
  case 0
  then show ?case by (subst split_loop.simps) simp
next
  case (Suc k)
  then have elt: "e < len" by simp
  with Suc.prems have d: "drop e (take len str) = str ! e # drop (Suc e) (take len str)"
    by (simp add: Cons_nth_drop_Suc[symmetric])
  from elt Suc.prems have rd: "read_at str e = Inr (str ! e)"
    by (simp add: read_at_def)
  have k: "k = len - Suc e" using Suc.hyps(2) by simp
  show ?case
  proof (cases "str ! e = d")
    case True
    from Suc.hyps(1)[OF k, of "Suc e" "ret @ [std_string str b (e - b)]"] elt Suc.prems
    have "split_loop str len d (Suc e) (Suc e) (ret @ [std_string str b (e - b)]) =
        Inr ((ret @ [std_string str b (e - b)]) @
             spec_fields d (std_string str (Suc e) (Suc e - Suc e)) (drop (Suc e) (take len str)))"
      by simp
    with True elt d rd show ?thesis
      by (subst split_loop.simps) (simp add: std_string_def)
  next
    case False
    have "take (Suc (e - b)) (drop b str) = take (e - b) (drop b str) @ [drop b str ! (e - b)]"
      using Suc.prems elt by (simp add: take_Suc_conv_app_nth)
    moreover have "drop b str ! (e - b) = str ! e"
      using Suc.prems elt by simp
    moreover have "Suc e - b = Suc (e - b)" using Suc.prems by simp
    ultimately have grow: "std_string str b (Suc e - b) = std_string str b (e - b) @ [str ! e]"
      by (simp add: std_string_def)
    from Suc.hyps(1)[OF k, of b ret] elt Suc.prems
    have "split_loop str len d b (Suc e) ret =
        Inr (ret @ spec_fields d (std_string str b (Suc e - b)) (drop (Suc e) (take len str)))"
      by simp
    with False elt d rd grow show ?thesis
      by (subst split_loop.simps) simp
  qed
qed

lemma pcp_split_spec:
  "len \<le> length str \<Longrightarrow> pcp_split str len d = Inr (spec_fields d [] (take len str))"
  by (simp add: pcp_split_def split_loop_spec std_string_def)

lemma length_spec_fields: "length (spec_fields d cur s) = count_list s d + 1"
  by (induction s arbitrary: cur) auto

lemma spec_fields_not_Nil: "spec_fields d cur s \<noteq> []"
  using length_spec_fields[of d cur s] by auto

lemma join_spec_fields: "join_fields d (spec_fields d cur s) = cur @ s"
proof (induction s arbitrary: cur)
  case Nil
  show ?case by simp
next
  case (Cons c cs)
  show ?case
  proof (cases "c = d")
    case True
    obtain g gs where "spec_fields d [] cs = g # gs"
      using spec_fields_not_Nil[of d "[]" cs] by (cases "spec_fields d [] cs") auto
    with Cons[of "[]"] True show ?thesis by simp
  next
    case False
    with Cons[of "cur @ [c]"] show ?thesis by simp
  qed
qed

lemma spec_fields_no_delimiter:
  "d \<notin> set cur \<Longrightarrow> d \<notin> set (concat (spec_fields d cur s))"
proof (induction s arbitrary: cur)
  case Nil
  then show ?case by simp
next
  case (Cons c cs)
  show ?case
    using Cons.IH[of "[]"] Cons.IH[of "cur @ [c]"] Cons.prems by auto
qed

section \<open>One iteration of \<open>get_row\<close> on a parser in a good state\<close>

lemma take_length_spec_line:
  "take (length (spec_line text lt c)) (drop c text) = spec_line text lt c"
  unfolding spec_line_def by (rule takeWhile_eq_take[symmetric])

lemma no_line_start_inside:
  assumes "\<forall>i. s \<le> i \<and> i < e \<longrightarrow> text ! i \<noteq> lt" and "s < i" and "i \<le> e"
  shows "\<not> is_line_start text lt i"
proof -
  from assms(2,3) have "s \<le> i - 1 \<and> i - 1 < e" by arith
  with assms(1) have "text ! (i - 1) \<noteq> lt" by blast
  with assms(2) show ?thesis by (simp add: is_line_start_def)
qed

lemma get_row_body_spec:
  assumes cfg_def: "cfg = csv_config p" and c_def: "c = cur_pos p"
    and k_def: "k = length (spec_line (csv_text cfg) (line_terminator cfg) c)"
    and ok: "parser_ok p" and le: "cur_pos p \<le> parse_to p"
  shows "is_line_start (csv_text cfg) (line_terminator cfg) c \<Longrightarrow>
           get_row_body p = Return (spec_row cfg c) (p\<lparr>cur_pos := c + k + 1\<rparr>)"
    and "\<not> is_line_start (csv_text cfg) (line_terminator cfg) c \<Longrightarrow>
           get_row_body p =
             (if parse_to p < c + k + 1 then Return (Inr []) p
              else Next_iteration (p\<lparr>cur_pos := c + k + 1\<rparr>))"
    and "\<forall>i. c < i \<and> i \<le> c + k \<longrightarrow> \<not> is_line_start (csv_text cfg) (line_terminator cfg) i"
proof -
  define buf where "buf = csv_text cfg"
  define lt where "lt = line_terminator cfg"
  from ok have n: "csv_size cfg = length buf" and tn: "parse_to p < length buf"
    by (simp_all add: parser_ok_def cfg_def buf_def)
  from le tn have cn: "c < length buf" by (simp add: c_def)
  from get_current_line_spec[OF cn, of lt] obtain s where
    g: "get_current_line buf (length buf) c lt = Inr (s, c + k - s)" and sc: "s \<le> c"
    and s0: "s = 0 \<or> (0 < s \<and> buf ! (s - 1) = lt)"
    and before: "\<forall>i. s \<le> i \<and> i < c \<longrightarrow> buf ! i \<noteq> lt"
    unfolding k_def buf_def lt_def by blast
  have kd: "k = length (takeWhile (\<lambda>x. x \<noteq> lt) (drop c buf))"
    by (simp add: k_def spec_line_def buf_def lt_def)
  from cn have cle: "c \<le> length buf" by simp
  note tw = takeWhile_drop_facts[OF kd cle]
  have inside: "\<forall>i. s \<le> i \<and> i < c + k \<longrightarrow> buf ! i \<noteq> lt"
  proof (intro allI impI)
    fix i assume "s \<le> i \<and> i < c + k"
    then show "buf ! i \<noteq> lt" using before tw(2) by (cases "i < c") auto
  qed
  have g': "get_current_line (content (csv_config p)) (filesize (csv_config p)) (cur_pos p)
      (get_line_terminator (csv_config p)) = Inr (s, c + k - s)"
    using g n by (simp add: content_def filesize_def get_line_terminator_def
        cfg_def[symmetric] c_def[symmetric] buf_def lt_def)
  have sl: "s + (c + k - s) = c + k" using sc by simp
  show "\<forall>i. c < i \<and> i \<le> c + k \<longrightarrow> \<not> is_line_start (csv_text cfg) (line_terminator cfg) i"
  proof (intro allI impI)
    fix i assume i: "c < i \<and> i \<le> c + k"
    have "\<forall>j. c \<le> j \<and> j < c + k \<longrightarrow> buf ! j \<noteq> lt" using tw(2) by simp
    from no_line_start_inside[OF this] i
    show "\<not> is_line_start (csv_text cfg) (line_terminator cfg) i"
      by (simp add: buf_def lt_def)
  qed
  {
    assume "is_line_start (csv_text cfg) (line_terminator cfg) c"
    then have "c = 0 \<or> buf ! (c - 1) = lt" by (simp add: is_line_start_def buf_def lt_def)
    have "s = c"
    proof (rule ccontr)
      assume "s \<noteq> c"
      with sc have "s < c" by simp
      from no_line_start_inside[OF before this] \<open>is_line_start (csv_text cfg) (line_terminator cfg) c\<close>
      show False by (simp add: buf_def lt_def)
    qed
    have "c + k \<le> length buf" by (rule tw(1))
    then have "k \<le> length (drop c (content (csv_config p)))"
      by (simp add: content_def cfg_def[symmetric] buf_def[symmetric])
    from pcp_split_spec[OF this, of "get_field_terminator (csv_config p)"]
    have sp: "pcp_split (drop c (content (csv_config p))) k (get_field_terminator (csv_config p)) =
        Inr (spec_fields (field_terminator cfg) [] (spec_line (csv_text cfg) (line_terminator cfg) c))"
      by (simp add: content_def get_field_terminator_def cfg_def[symmetric] k_def
          take_length_spec_line)
    have ss: "std_string (content (csv_config p)) c k = spec_line (csv_text cfg) (line_terminator cfg) c"
      by (simp add: std_string_def content_def cfg_def[symmetric] k_def take_length_spec_line)
    show "get_row_body p = Return (spec_row cfg c) (p\<lparr>cur_pos := c + k + 1\<rparr>)"
      unfolding get_row_body_def g'
      using \<open>s = c\<close> sp ss
      by (simp add: c_def[symmetric] Let_def spec_row_def get_n_columns_def cfg_def[symmetric])
  }
  {
    assume nls: "\<not> is_line_start (csv_text cfg) (line_terminator cfg) c"
    have "s \<noteq> c"
    proof
      assume "s = c"
      with s0 have "is_line_start buf lt c" by (auto simp: is_line_start_def)
      with nls show False by (simp add: buf_def lt_def)
    qed
    then show "get_row_body p =
             (if parse_to p < c + k + 1 then Return (Inr []) p
              else Next_iteration (p\<lparr>cur_pos := c + k + 1\<rparr>))"
      unfolding get_row_body_def g'
      using sl by (auto simp add: c_def[symmetric])
  }
qed

section \<open>What one call and what all calls of \<open>get_row\<close> return\<close>

lemma filter_upt_skip:
  assumes "\<forall>i. a \<le> i \<and> i < b \<longrightarrow> \<not> P i" and "a \<le> b"
  shows "filter P [a..<m] = filter P [b..<m]"
proof (cases "b \<le> m")
  case True
  with assms(2) have "[a..<m] = [a..<b] @ [b..<m]"
    by (metis le_Suc_ex upt_add_eq_append)
  moreover have "filter P [a..<b] = []"
    using assms(1) by (auto simp: filter_empty_conv)
  ultimately show ?thesis by simp
next
  case False
  then have "filter P [b..<m] = []" by simp
  moreover have "filter P [a..<m] = []"
    using assms(1) False by (auto simp: filter_empty_conv)
  ultimately show ?thesis by (simp only:)
qed

lemma parser_ok_cur_pos [simp]: "parser_ok (p\<lparr>cur_pos := c\<rparr>) = parser_ok p"
  by (simp add: parser_ok_def)

lemma get_row_spec:
  assumes "parser_ok p"
  shows "(owned_line_starts (csv_config p) (cur_pos p) (parse_to p) = [] \<longrightarrow>
            fst (get_row p) = Inr []) \<and>
         (\<forall>s rest. owned_line_starts (csv_config p) (cur_pos p) (parse_to p) = s # rest \<longrightarrow>
            get_row p =
              (spec_row (csv_config p) s,
               p\<lparr>cur_pos := s + length (spec_line (csv_text (csv_config p))
                                   (line_terminator (csv_config p)) s) + 1\<rparr>) \<and>
            owned_line_starts (csv_config p)
              (s + length (spec_line (csv_text (csv_config p))
                             (line_terminator (csv_config p)) s) + 1) (parse_to p) = rest)"
  using assms
proof (induction p rule: get_row.induct)
  case (1 p)
  define cfg where "cfg = csv_config p"
  define c where "c = cur_pos p"
  define t where "t = parse_to p"
  define ls where "ls = is_line_start (csv_text cfg) (line_terminator cfg)"
  define k where "k = length (spec_line (csv_text cfg) (line_terminator cfg) c)"
  have owned: "\<And>a. owned_line_starts cfg a t = filter ls [a..<Suc t]"
    by (simp add: owned_line_starts_def ls_def)
  show ?case
  proof (cases "c \<le> t")
    case False
    then have "get_row p = (Inr [], p)"
      by (subst get_row.simps) (simp add: c_def t_def)
    moreover from False have "owned_line_starts cfg c t = []"
      by (simp add: owned)
    ultimately show ?thesis by (simp add: cfg_def c_def t_def)
  next
    case True
    then have le: "cur_pos p \<le> parse_to p" by (simp add: c_def t_def)
    note body = get_row_body_spec[OF cfg_def c_def k_def "1.prems" le]
    have after: "\<forall>i. Suc c \<le> i \<and> i < c + k + 1 \<longrightarrow> \<not> ls i"
      using body(3) by (auto simp: ls_def)
    show ?thesis
    proof (cases "ls c")
      case True
      then have b: "get_row_body p = Return (spec_row cfg c) (p\<lparr>cur_pos := c + k + 1\<rparr>)"
        using body(1) by (simp add: ls_def)
      have g: "get_row p = (spec_row cfg c, p\<lparr>cur_pos := c + k + 1\<rparr>)"
        using le b by (subst get_row.simps) simp
      have "[c..<Suc t] = c # [Suc c..<Suc t]"
        using \<open>c \<le> t\<close> by (simp add: upt_conv_Cons)
      moreover have "filter ls [Suc c..<Suc t] = filter ls [c + k + 1..<Suc t]"
        by (rule filter_upt_skip[OF after]) simp
      ultimately have "owned_line_starts cfg c t = c # owned_line_starts cfg (c + k + 1) t"
        using True by (simp add: owned)
      with g show ?thesis
        by (simp add: cfg_def[symmetric] c_def[symmetric] t_def[symmetric] k_def)
    next
      case False
      then have b: "get_row_body p =
          (if t < c + k + 1 then Return (Inr []) p
           else Next_iteration (p\<lparr>cur_pos := c + k + 1\<rparr>))"
        using body(2) by (simp add: ls_def t_def)
      have none: "\<forall>i. c \<le> i \<and> i < c + k + 1 \<longrightarrow> \<not> ls i"
      proof (intro allI impI)
        fix i assume "c \<le> i \<and> i < c + k + 1"
        then show "\<not> ls i" using after False by (cases "i = c") auto
      qed
      have skip: "owned_line_starts cfg c t = owned_line_starts cfg (c + k + 1) t"
        unfolding owned by (rule filter_upt_skip[OF none]) simp
      show ?thesis
      proof (cases "t < c + k + 1")
        case True
        with b le have "get_row p = (Inr [], p)"
          by (subst get_row.simps) simp
        moreover from True have "owned_line_starts cfg (c + k + 1) t = []"
          by (simp add: owned)
        ultimately show ?thesis
          using skip by (simp add: cfg_def[symmetric] c_def[symmetric] t_def[symmetric])
      next
        case False
        define p2 where "p2 = p\<lparr>cur_pos := c + k + 1\<rparr>"
        from False b have b2: "get_row_body p = Next_iteration p2"
          by (simp add: p2_def)
        with le have g: "get_row p = get_row p2"
          by (subst get_row.simps) simp
        have ok2: "parser_ok p2" using "1.prems" by (simp add: p2_def)
        have p2: "csv_config p2 = cfg" "parse_to p2 = t" "cur_pos p2 = c + k + 1"
          "\<And>x. p2\<lparr>cur_pos := x\<rparr> = p\<lparr>cur_pos := x\<rparr>"
          by (simp_all add: p2_def cfg_def t_def)
        from "1.IH"[OF le b2 ok2] show ?thesis
          unfolding g p2 cfg_def[symmetric] c_def[symmetric] t_def[symmetric] skip .
      qed
    qed
  qed
qed

lemma spec_row_proper: "spec_row cfg s \<noteq> Inr [] \<and> is_recoverable (spec_row cfg s)"
  by (simp add: spec_row_def Let_def is_recoverable_def spec_fields_not_Nil)

lemma get_rows_spec_aux:
  "parser_ok p \<Longrightarrow> owned_line_starts (csv_config p) (cur_pos p) (parse_to p) = xs \<Longrightarrow>
   get_rows p = map (spec_row (csv_config p)) xs"
proof (induction xs arbitrary: p)
  case Nil
  with get_row_spec[OF Nil(1)] have "fst (get_row p) = Inr []" by simp
  then show ?case by (subst get_rows.simps) (cases "get_row p", simp)
next
  case (Cons s rest)
  define p1 where "p1 = p\<lparr>cur_pos := s + length (spec_line (csv_text (csv_config p))
                                   (line_terminator (csv_config p)) s) + 1\<rparr>"
  from get_row_spec[OF Cons.prems(1)] Cons.prems(2)
  have g: "get_row p = (spec_row (csv_config p) s, p1)"
    and r: "owned_line_starts (csv_config p) (cur_pos p1) (parse_to p) = rest"
    by (simp_all add: p1_def)
  have "parser_ok p1" using Cons.prems(1) by (simp add: p1_def)
  moreover have "owned_line_starts (csv_config p1) (cur_pos p1) (parse_to p1) = rest"
    using r by (simp add: p1_def)
  ultimately have "get_rows p1 = map (spec_row (csv_config p1)) rest"
    by (rule Cons.IH)
  then have "get_rows p1 = map (spec_row (csv_config p)) rest" by (simp add: p1_def)
  with g spec_row_proper[of "csv_config p" s] show ?case
    by (subst get_rows.simps) simp
qed

lemma get_rows_spec:
  "parser_ok p \<Longrightarrow> get_rows p = spec_rows (csv_config p) (cur_pos p) (parse_to p)"
  by (simp add: get_rows_spec_aux spec_rows_def)

section \<open>Construction\<close>

lemma CsvConfig_new_Inr:
  assumes "CsvConfig_new sg file h ft lt = Inr cfg"
  shows "\<exists>text. file = Some text \<and> 1 \<le> length text \<and>
           cfg = \<lparr>has_header_line = h, field_terminator = ft, line_terminator = lt,
                  csv_size = length text, csv_text = text,
                  headers = (if h then spec_fields ft [] (spec_line text lt 0) else []),
                  header_length = (if h then Some (length (spec_line text lt 0)) else None),
                  n_columns = length (spec_fields ft [] (spec_line text lt 0))\<rparr>"
proof -
  from assms obtain buf where f: "file = Some buf"
    by (cases "file") (auto simp: CsvConfig_new_def split: if_splits)
  from assms f obtain s l where g: "get_current_line buf (length buf) 0 lt = Inr (s, l)"
    by (auto simp: CsvConfig_new_def split: if_splits sum.splits)
  then have n: "1 \<le> length buf"
    by (auto simp: get_current_line_def split: if_splits)
  then have "0 < length buf" by arith
  from get_current_line_spec[OF this, of lt] g
  have s: "s = 0" and l: "l = length (spec_line buf lt 0)" by auto
  have "l \<le> length (drop s buf)"
    using s l by (simp add: spec_line_def length_takeWhile_le)
  from pcp_split_spec[OF this, of ft]
  have sp: "pcp_split (drop s buf) l ft = Inr (spec_fields ft [] (spec_line buf lt 0))"
    using s l take_length_spec_line[of buf lt 0] by simp
  from assms f g sp n l show ?thesis
    by (auto simp: CsvConfig_new_def split: if_splits)
qed

lemma of_char_int_bounds: "0 \<le> (of_char c :: int) \<and> (of_char c :: int) < 256"
proof -
  have "(of_char c :: nat) mod 256 = of_char c" by (rule of_char_mod_256)
  then have "(of_char c :: nat) < 256" by (metis mod_less_divisor zero_less_numeral)
  moreover have "(of_char c :: int) = int (of_char c)" by (simp add: of_nat_of_char)
  ultimately show ?thesis by simp
qed

lemma char_value_ascii:
  "(0 \<le> char_value sg c \<and> char_value sg c \<le> 127) = ((of_char c :: int) < 128)"
  using of_char_int_bounds[of c] by (auto simp: char_value_def)

lemma PartialCsvParser_new_ok:
  assumes "csv_size cfg = length (csv_text cfg)" and "PartialCsvParser_new cfg f t = Inr p"
  shows "parser_ok p" and "csv_config p = cfg" and "cur_pos p = parse_from p"
    and "body_offset cfg \<le> parse_from p"
  using assms
  by (auto simp: PartialCsvParser_new_def Let_def parser_ok_def filesize_def split: if_splits)

text \<open>
  The good states are those of the parsers that were constructed on a constructed
  configuration, and calls of \<open>get_row\<close> stay inside them. In a good state a call
  returns a row, the empty vector or the content error: no assertion fails and no
  read leaves the buffer.
\<close>

lemma parser_ok_constructed:
  assumes "CsvConfig_new sg file h ft lt = Inr cfg" and "PartialCsvParser_new cfg f t = Inr p"
  shows "parser_ok p"
proof -
  from CsvConfig_new_Inr[OF assms(1)] have "csv_size cfg = length (csv_text cfg)" by auto
  from PartialCsvParser_new_ok(1)[OF this assms(2)] show ?thesis .
qed

lemma parser_ok_get_row: "parser_ok p \<Longrightarrow> parser_ok (snd (get_row p))"
  using get_row_state[of p "fst (get_row p)" "snd (get_row p)"]
  by (simp add: parser_ok_def)

lemma parser_ok_after_calls: "parser_ok p \<Longrightarrow> parser_ok (after_calls k p)"
  by (induction k arbitrary: p) (simp_all add: parser_ok_get_row)

lemma get_row_safe:
  assumes "parser_ok p"
  shows "fst (get_row p) \<noteq> Inl OutOfBounds" and "fst (get_row p) \<noteq> Inl PCPAssertionFailed"
    and "fst (get_row p) \<noteq> Inl PCPError"
proof -
  have "fst (get_row p) = Inr [] \<or> (\<exists>s. fst (get_row p) = spec_row (csv_config p) s)"
    using get_row_spec[OF assms]
    by (cases "owned_line_starts (csv_config p) (cur_pos p) (parse_to p)") auto
  then show "fst (get_row p) \<noteq> Inl OutOfBounds"
    and "fst (get_row p) \<noteq> Inl PCPAssertionFailed" and "fst (get_row p) \<noteq> Inl PCPError"
    by (auto simp: spec_row_def Let_def split: if_splits)
qed

section \<open>Ranges and partitions\<close>

lemma parse_range_spec:
  assumes "csv_size cfg = length (csv_text cfg)" and "body_offset cfg \<le> f"
    and "t < filesize cfg" and "f \<noteq> SIZE_MAX" and "t \<noteq> SIZE_MAX"
  shows "parse_range cfg (f, t) = spec_rows cfg f t"
proof -
  define p where "p = \<lparr>csv_config = cfg, parse_from = f, parse_to = t, cur_pos = f\<rparr>"
  from assms(2-5) have new: "PartialCsvParser_new cfg f t = Inr p"
    by (simp add: PartialCsvParser_new_def PARSE_FROM_BODY_BEGINNING_def
        PARSE_TO_FILE_END_def p_def)
  from PartialCsvParser_new_ok(1)[OF assms(1) new] have "parser_ok p" .
  from get_rows_spec[OF this] have "get_rows p = spec_rows cfg f t" by (simp add: p_def)
  with new show ?thesis by (simp add: parse_range_def)
qed

lemma parse_range_whole:
  assumes "csv_size cfg = length (csv_text cfg)" and "1 \<le> csv_size cfg"
  shows "parse_range cfg (PARSE_FROM_BODY_BEGINNING, PARSE_TO_FILE_END) =
         spec_rows cfg (body_offset cfg) (filesize cfg - 1)"
proof -
  define p where "p = \<lparr>csv_config = cfg, parse_from = body_offset cfg,
    parse_to = filesize cfg - 1, cur_pos = body_offset cfg\<rparr>"
  from assms(2) have
    new: "PartialCsvParser_new cfg PARSE_FROM_BODY_BEGINNING PARSE_TO_FILE_END = Inr p"
    by (simp add: PartialCsvParser_new_def p_def filesize_def Let_def)
  from PartialCsvParser_new_ok(1)[OF assms(1) new] have "parser_ok p" .
  from get_rows_spec[OF this]
  have "get_rows p = spec_rows cfg (body_offset cfg) (filesize cfg - 1)" by (simp add: p_def)
  with new show ?thesis by (simp add: parse_range_def)
qed

lemma is_partition_bounds:
  "is_partition lo hi rs \<Longrightarrow> r \<in> set rs \<Longrightarrow>
   lo \<le> fst r \<and> fst r \<le> Suc (snd r) \<and> snd r < hi"
proof (induction rs arbitrary: lo)
  case Nil
  then show ?case by simp
next
  case (Cons a rs)
  obtain f t where a: "a = (f, t)" by (cases a)
  show ?case
  proof (cases "r = a")
    case True
    with Cons.prems a show ?thesis by simp
  next
    case False
    with Cons.prems a have "is_partition (Suc t) hi rs" and "r \<in> set rs" and "lo \<le> Suc t"
      by simp_all
    from Cons.IH[OF this(1,2)] \<open>lo \<le> Suc t\<close> show ?thesis by simp
  qed
qed

lemma is_partition_filter:
  "is_partition lo hi rs \<Longrightarrow>
   concat (map (\<lambda>r. filter P [fst r..<Suc (snd r)]) rs) = filter P [lo..<hi]"
proof (induction rs arbitrary: lo)
  case Nil
  then show ?case by simp
next
  case (Cons a rs)
  obtain f t where a: "a = (f, t)" by (cases a)
  with Cons.prems have p: "f = lo" "lo \<le> Suc t" "t < hi" "is_partition (Suc t) hi rs"
    by simp_all
  have e: "Suc t + (hi - Suc t) = hi" using p(3) by simp
  have "[lo..<Suc t + (hi - Suc t)] = [lo..<Suc t] @ [Suc t..<Suc t + (hi - Suc t)]"
    using p(2) by (rule upt_add_eq_append)
  then have "[lo..<hi] = [lo..<Suc t] @ [Suc t..<hi]"
    unfolding e .
  with Cons.IH[OF p(4)] a p(1) show ?case by (simp del: upt_Suc)
qed

section \<open>Single calls\<close>

lemma get_row_body_Return_empty:
  "get_row_body p = Return (Inr []) p' \<Longrightarrow> p' = p"
  by (auto simp: get_row_body_def Let_def split: sum.splits if_splits prod.splits
      dest: pcp_split_not_Nil)

lemma get_row_body_Return_row:
  "get_row_body p = Return (Inr row) p' \<Longrightarrow> row \<noteq> [] \<Longrightarrow>
   length row = get_n_columns (csv_config p)"
  by (auto simp: get_row_body_def Let_def split: sum.splits if_splits prod.splits)

lemma get_row_empty_fixed:
  "get_row p = (Inr [], p') \<Longrightarrow> get_row p' = (Inr [], p')"
proof (induction p rule: get_row.induct)
  case (1 p)
  show ?case
  proof (cases "cur_pos p \<le> parse_to p")
    case False
    with "1.prems" have "p' = p" by (subst (asm) get_row.simps) simp
    with "1.prems" show ?thesis by simp
  next
    case True
    show ?thesis
    proof (cases "get_row_body p")
      case (Return r0 p0)
      with True "1.prems" have "r0 = Inr []" "p0 = p'"
        by (subst (asm) get_row.simps, simp)+
      with Return have "get_row_body p = Return (Inr []) p'" by simp
      then have "p' = p" by (rule get_row_body_Return_empty)
      with "1.prems" show ?thesis by simp
    next
      case (Next_iteration p0)
      with True "1.prems" have "get_row p0 = (Inr [], p')"
        by (subst (asm) get_row.simps) simp
      from "1.IH"[OF True Next_iteration this] show ?thesis .
    qed
  qed
qed

lemma get_row_row_length:
  "get_row p = (Inr row, p') \<Longrightarrow> row \<noteq> [] \<Longrightarrow> length row = get_n_columns (csv_config p)"
proof (induction p rule: get_row.induct)
  case (1 p)
  from "1.prems" have le: "cur_pos p \<le> parse_to p"
    by (subst (asm) get_row.simps) (auto split: if_splits)
  show ?case
  proof (cases "get_row_body p")
    case (Return r0 p0)
    with le "1.prems"(1) have "r0 = Inr row" "p0 = p'"
      by (subst (asm) get_row.simps, simp)+
    with Return have "get_row_body p = Return (Inr row) p'" by simp
    from get_row_body_Return_row[OF this "1.prems"(2)] show ?thesis .
  next
    case (Next_iteration p0)
    with le "1.prems"(1) have "get_row p0 = (Inr row, p')"
      by (subst (asm) get_row.simps) simp
    from "1.IH"[OF le Next_iteration this "1.prems"(2)]
      get_row_body_progress(4)[OF Next_iteration]
    show ?thesis by simp
  qed
qed

lemma after_calls_fixed:
  "get_row p = (r, p) \<Longrightarrow> after_calls k p = p"
  by (induction k) simp_all

lemma get_row_fuel_enough:
  "Suc (parse_to p) - cur_pos p \<le> n \<Longrightarrow> get_row_fuel n p = Some (get_row p)"
proof (induction p arbitrary: n rule: get_row.induct)
  case (1 p)
  show ?case
  proof (cases "cur_pos p \<le> parse_to p")
    case False
    then show ?thesis
      by (subst get_row_fuel.simps, subst get_row.simps) simp
  next
    case True
    with "1.prems" obtain m where n: "n = Suc m" by (cases n) auto
    show ?thesis
    proof (cases "get_row_body p")
      case (Return r0 p0)
      with True n show ?thesis
        by (subst get_row_fuel.simps, subst get_row.simps) simp
    next
      case (Next_iteration p0)
      from get_row_body_progress[OF Next_iteration] "1.prems" n
      have "Suc (parse_to p0) - cur_pos p0 \<le> m" by simp
      from "1.IH"[OF True Next_iteration this] Next_iteration True n show ?thesis
        by (subst get_row_fuel.simps, subst get_row.simps) simp
    qed
  qed
qed

section \<open>The claims\<close>

text \<open>
  C1. Take a configuration constructed from a buffer (so the buffer is not empty; its
  size is a file size, below the largest \<open>size_t\<close>) and a partition of the bytes
  from the body offset to the end of the file into contiguous closed ranges, wherever
  the split points fall (two of them may even coincide and leave a range empty).
  One parser per range, each called until it returns the empty vector: the lists of
  what the calls return (a row, or the content error of a line with the wrong number
  of fields, after which the calls go on), put one after another in range order,
  are the list that a single parser over the whole body returns. Each parser
  returns exactly the rows of the lines whose first byte lies in its range, in file
  order; over the ranges these first bytes are all the line starts of the body,
  each one once.
\<close>

theorem partition_completeness:
  assumes "CsvConfig_new sg (Some text) h ft lt = Inr cfg"
    and "length text < SIZE_MAX"
    and "is_partition (body_offset cfg) (filesize cfg) rs"
  shows "concat (map (parse_range cfg) rs) =
           parse_range cfg (PARSE_FROM_BODY_BEGINNING, PARSE_TO_FILE_END) \<and>
         (\<forall>r\<in>set rs. parse_range cfg r = spec_rows cfg (fst r) (snd r)) \<and>
         concat (map (\<lambda>r. owned_line_starts cfg (fst r) (snd r)) rs) =
           owned_line_starts cfg (body_offset cfg) (filesize cfg - 1) \<and>
         distinct (owned_line_starts cfg (body_offset cfg) (filesize cfg - 1))"
proof -
  from CsvConfig_new_Inr[OF assms(1)] have n: "1 \<le> length text"
    and sz: "csv_size cfg = length text" and tx: "csv_text cfg = text"
    by auto
  have inv: "csv_size cfg = length (csv_text cfg)" using sz tx by simp
  have fs: "filesize cfg = length text" using sz by (simp add: filesize_def)
  have each: "parse_range cfg r = spec_rows cfg (fst r) (snd r)" if "r \<in> set rs" for r
  proof -
    from is_partition_bounds[OF assms(3) that]
    have b: "body_offset cfg \<le> fst r" "fst r \<le> Suc (snd r)" "snd r < filesize cfg"
      by simp_all
    with fs assms(2) have "fst r \<noteq> SIZE_MAX" "snd r \<noteq> SIZE_MAX" by simp_all
    from parse_range_spec[OF inv b(1) b(3) this] show ?thesis by simp
  qed
  have starts: "concat (map (\<lambda>r. owned_line_starts cfg (fst r) (snd r)) rs) =
      owned_line_starts cfg (body_offset cfg) (filesize cfg - 1)"
  proof -
    have e: "Suc (filesize cfg - 1) = filesize cfg" using n fs by simp
    show ?thesis
      unfolding owned_line_starts_def e by (rule is_partition_filter[OF assms(3)])
  qed
  have "concat (map (parse_range cfg) rs) =
      concat (map (\<lambda>r. spec_rows cfg (fst r) (snd r)) rs)"
    using each by (simp cong: map_cong)
  also have "\<dots> = map (spec_row cfg) (concat (map (\<lambda>r. owned_line_starts cfg (fst r) (snd r)) rs))"
    by (simp add: spec_rows_def map_concat comp_def)
  also have "\<dots> = spec_rows cfg (body_offset cfg) (filesize cfg - 1)"
    by (simp add: starts spec_rows_def)
  also have "\<dots> = parse_range cfg (PARSE_FROM_BODY_BEGINNING, PARSE_TO_FILE_END)"
    using parse_range_whole[OF inv] n sz by simp
  finally have whole: "concat (map (parse_range cfg) rs) =
      parse_range cfg (PARSE_FROM_BODY_BEGINNING, PARSE_TO_FILE_END)" .
  have "distinct (owned_line_starts cfg (body_offset cfg) (filesize cfg - 1))"
    by (simp add: owned_line_starts_def)
  with whole each starts show ?thesis by blast
qed

theorem partition_completeness_witness:
  "CsvConfig_new True (Some ''a,b,c\<newline>1,2,3\<newline>4,5,6\<newline>'') True (CHR '','') (CHR ''\<newline>'') =
     Inr example_config \<and>
   length ''a,b,c\<newline>1,2,3\<newline>4,5,6\<newline>'' < SIZE_MAX \<and>
   is_partition (body_offset example_config) (filesize example_config)
     [(6, 8), (9, 14), (15, 17)] \<and>
   parse_range example_config (6, 8) = [Inr [''1'', ''2'', ''3'']] \<and>
   parse_range example_config (9, 14) = [Inr [''4'', ''5'', ''6'']] \<and>
   parse_range example_config (15, 17) = [] \<and>
   parse_range example_config (PARSE_FROM_BODY_BEGINNING, PARSE_TO_FILE_END) =
     [Inr [''1'', ''2'', ''3''], Inr [''4'', ''5'', ''6'']]"
proof -
  have c: "CsvConfig_new True (Some ''a,b,c\<newline>1,2,3\<newline>4,5,6\<newline>'') True (CHR '','')
      (CHR ''\<newline>'') = Inr example_config"
    by code_simp
  have l: "length ''a,b,c\<newline>1,2,3\<newline>4,5,6\<newline>'' < SIZE_MAX"
    by (simp add: SIZE_MAX_def)
  have p: "is_partition (body_offset example_config) (filesize example_config)
      [(6, 8), (9, 14), (15, 17)]"
    by (simp add: body_offset_def filesize_def example_config_def)
  note new = PartialCsvParser_new_def PARSE_FROM_BODY_BEGINNING_def PARSE_TO_FILE_END_def
    SIZE_MAX_def Let_def body_offset_def filesize_def example_config_def parse_range_def
  have "get_rows \<lparr>csv_config = example_config, parse_from = 6, parse_to = 8, cur_pos = 6\<rparr> =
      [Inr [''1'', ''2'', ''3'']]"
    by code_simp
  then have r1: "parse_range example_config (6, 8) = [Inr [''1'', ''2'', ''3'']]"
    by (simp add: new)
  have "get_rows \<lparr>csv_config = example_config, parse_from = 9, parse_to = 14, cur_pos = 9\<rparr> =
      [Inr [''4'', ''5'', ''6'']]"
    by code_simp
  then have r2: "parse_range example_config (9, 14) = [Inr [''4'', ''5'', ''6'']]"
    by (simp add: new)
  have "get_rows \<lparr>csv_config = example_config, parse_from = 15, parse_to = 17, cur_pos = 15\<rparr> =
      []"
    by code_simp
  then have r3: "parse_range example_config (15, 17) = []"
    by (simp add: new)
  from partition_completeness[OF c l p]
  have "concat (map (parse_range example_config) [(6, 8), (9, 14), (15, 17)]) =
      parse_range example_config (PARSE_FROM_BODY_BEGINNING, PARSE_TO_FILE_END)"
    by blast
  with r1 r2 r3 have "parse_range example_config (PARSE_FROM_BODY_BEGINNING, PARSE_TO_FILE_END) =
      [Inr [''1'', ''2'', ''3''], Inr [''4'', ''5'', ''6'']]"
    by simp
  with c l p r1 r2 r3 show ?thesis by blast
qed

text \<open>
  C2. For a buffer of length at least 1 and a position inside it, the line locator
  returns the start \<open>s\<close> and the length \<open>l\<close> of the line containing the position:
  \<open>s\<close> is 0 or the byte after a line terminator, and no terminator lies between
  \<open>s\<close> and the position, so it is the nearest preceding one; the \<open>l\<close> bytes from
  \<open>s\<close> hold no terminator and end at a terminator or at the end of the buffer. The
  locator is a function of its arguments: it has no effect besides its result.
\<close>

theorem get_current_line_locates:
  assumes "1 \<le> length text" and "pos < length text"
  shows "\<exists>s l. get_current_line text (length text) pos lt = Inr (s, l) \<and>
           s \<le> pos \<and> pos \<le> s + l \<and> s + l \<le> length text \<and>
           (s = 0 \<or> (0 < s \<and> text ! (s - 1) = lt)) \<and>
           (\<forall>i. s \<le> i \<and> i < s + l \<longrightarrow> text ! i \<noteq> lt) \<and>
           (s + l = length text \<or> (s + l < length text \<and> text ! (s + l) = lt))"
proof -
  define k where "k = length (takeWhile (\<lambda>c. c \<noteq> lt) (drop pos text))"
  from get_current_line_spec[OF assms(2), of lt] obtain s where
    s: "get_current_line text (length text) pos lt = Inr (s, pos + k - s)" "s \<le> pos"
       "s = 0 \<or> (0 < s \<and> text ! (s - 1) = lt)" "\<forall>i. s \<le> i \<and> i < pos \<longrightarrow> text ! i \<noteq> lt"
    unfolding k_def spec_line_def by blast
  from assms(2) have ple: "pos \<le> length text" by simp
  note tw = takeWhile_drop_facts[OF k_def ple]
  have sl: "s + (pos + k - s) = pos + k" using s(2) by simp
  have mid: "\<forall>i. s \<le> i \<and> i < pos + k \<longrightarrow> text ! i \<noteq> lt"
  proof (intro allI impI)
    fix i assume "s \<le> i \<and> i < pos + k"
    then show "text ! i \<noteq> lt"
      using s(4) tw(2) by (cases "i < pos") auto
  qed
  have fin: "pos + k = length text \<or> (pos + k < length text \<and> text ! (pos + k) = lt)"
    using tw(3) by auto
  show ?thesis
    apply (rule exI[of _ s], rule exI[of _ "pos + k - s"])
    unfolding sl
    using s(1,2,3) tw(1) mid fin by simp
qed

theorem get_current_line_locates_witness:
  "1 \<le> length ''ab\<newline>cd'' \<and> 4 < length ''ab\<newline>cd'' \<and>
   get_current_line ''ab\<newline>cd'' (length ''ab\<newline>cd'') 4 (CHR ''\<newline>'') = Inr (3, 2)"
proof -
  have a: "1 \<le> length ''ab\<newline>cd''" and b: "4 < length ''ab\<newline>cd''" by simp_all
  from get_current_line_locates[OF a b, of "CHR ''\<newline>''"] obtain s l where
    "get_current_line ''ab\<newline>cd'' (length ''ab\<newline>cd'') 4 (CHR ''\<newline>'') = Inr (s, l)"
    by blast
  moreover have
    "get_current_line ''ab\<newline>cd'' (length ''ab\<newline>cd'') 4 (CHR ''\<newline>'') = Inr (3, 2)"
    by code_simp
  ultimately show ?thesis using a b by simp
qed

text \<open>
  C3. On a byte sequence with \<open>k\<close> occurrences of the delimiter the field splitter
  returns \<open>k + 1\<close> fields; written back in order with one delimiter between
  neighbours they are the input, so empty fields are kept and nothing is trimmed or
  unquoted; no field holds the delimiter. The sequence \<open>a,,b\<close> gives the three
  fields \<open>a\<close>, empty, \<open>b\<close>, and the empty sequence gives one empty field.
\<close>

theorem pcp_split_fields:
  "(\<exists>fs. pcp_split s (length s) d = Inr fs \<and>
      length fs = count_list s d + 1 \<and>
      join_fields d fs = s \<and>
      d \<notin> set (concat fs)) \<and>
   pcp_split ''a,,b'' 4 (CHR '','') = Inr [''a'', '''', ''b''] \<and>
   pcp_split '''' 0 d = Inr ['''']"
proof -
  have "pcp_split ''a,,b'' 4 (CHR '','') = Inr [''a'', '''', ''b'']"
    by code_simp
  moreover have "pcp_split '''' 0 d = Inr ['''']"
    using pcp_split_spec[of 0 "[]" d] by simp
  ultimately show ?thesis
    using length_spec_fields[of d "[]" s] join_spec_fields[of d "[]" s]
      spec_fields_no_delimiter[of d "[]" s] pcp_split_spec[of "length s" s d]
    by simp
qed

theorem pcp_split_fields_witness:
  "\<exists>fs. pcp_split ''1,,3,'' (length ''1,,3,'') (CHR '','') = Inr fs \<and>
      length fs = 4 \<and> join_fields (CHR '','') fs = ''1,,3,''"
proof -
  from pcp_split_fields[of "''1,,3,''" "CHR '',''"] obtain fs where
    fs: "pcp_split ''1,,3,'' (length ''1,,3,'') (CHR '','') = Inr fs"
      "length fs = count_list ''1,,3,'' (CHR '','') + 1"
      "join_fields (CHR '','') fs = ''1,,3,''"
    by blast
  from fs(2) have "length fs = 4" by simp
  with fs(1,3) show ?thesis by blast
qed

text \<open>
  C4. Let a parser in a good state make a call of \<open>get_row\<close> that reaches a line it
  owns: the line starting at \<open>s\<close>, the first line start from the cursor up to
  \<open>parse_to\<close>. When the field splitter finds in that line a number of fields other
  than the column count, the call ends with \<open>PCPCsvError\<close> and returns no row, and
  the message ends with the bytes of the line. Besides, in any state, a row that a
  call returns (a vector that is not the empty end marker) has exactly as many
  fields as the configuration has columns.
\<close>

theorem column_mismatch_is_error:
  "(parser_ok p \<and>
    owned_line_starts (csv_config p) (cur_pos p) (parse_to p) = s # rest \<and>
    line = spec_line (csv_text (csv_config p)) (line_terminator (csv_config p)) s \<and>
    pcp_split line (length line) (get_field_terminator (csv_config p)) = Inr columns \<and>
    length columns \<noteq> get_n_columns (csv_config p) \<longrightarrow>
      (\<exists>prefix. fst (get_row p) = Inl (PCPCsvError (prefix @ line)))) \<and>
   (get_row p = (Inr row, p') \<and> row \<noteq> [] \<longrightarrow>
      length row = get_n_columns (csv_config p))"
proof (intro conjI impI)
  assume a: "parser_ok p \<and>
    owned_line_starts (csv_config p) (cur_pos p) (parse_to p) = s # rest \<and>
    line = spec_line (csv_text (csv_config p)) (line_terminator (csv_config p)) s \<and>
    pcp_split line (length line) (get_field_terminator (csv_config p)) = Inr columns \<and>
    length columns \<noteq> get_n_columns (csv_config p)"
  then have ok: "parser_ok p"
    and o: "owned_line_starts (csv_config p) (cur_pos p) (parse_to p) = s # rest"
    and ln: "line = spec_line (csv_text (csv_config p)) (line_terminator (csv_config p)) s"
    and sp: "pcp_split line (length line) (get_field_terminator (csv_config p)) = Inr columns"
    and ne: "length columns \<noteq> get_n_columns (csv_config p)"
    by blast+
  from get_row_spec[OF ok] o have g: "fst (get_row p) = spec_row (csv_config p) s"
    by simp
  have "pcp_split line (length line) (get_field_terminator (csv_config p)) =
      Inr (spec_fields (field_terminator (csv_config p)) [] line)"
    by (simp add: pcp_split_spec get_field_terminator_def)
  from sp[unfolded this]
  have c: "spec_fields (field_terminator (csv_config p)) [] line = columns"
    by simp
  have "spec_row (csv_config p) s =
      Inl (PCPCsvError (mismatch_message (length columns) (n_columns (csv_config p)) line))"
    unfolding spec_row_def Let_def ln[symmetric] c
    using ne by (simp add: get_n_columns_def)
  with g show "\<exists>prefix. fst (get_row p) = Inl (PCPCsvError (prefix @ line))"
    unfolding mismatch_message_def by (metis append.assoc)
next
  assume "get_row p = (Inr row, p') \<and> row \<noteq> []"
  then show "length row = get_n_columns (csv_config p)"
    using get_row_row_length by blast
qed

theorem column_mismatch_is_error_witness:
  "parser_ok \<lparr>csv_config = malformed_config, parse_from = 6, parse_to = 15, cur_pos = 6\<rparr> \<and>
   owned_line_starts malformed_config 6 15 = [6, 10] \<and>
   pcp_split ''1,2'' (length ''1,2'') (CHR '','') = Inr [''1'', ''2''] \<and>
   (\<exists>prefix. fst (get_row \<lparr>csv_config = malformed_config, parse_from = 6, parse_to = 15,
                            cur_pos = 6\<rparr>) = Inl (PCPCsvError (prefix @ ''1,2''))) \<and>
   get_row \<lparr>csv_config = malformed_config, parse_from = 6, parse_to = 15, cur_pos = 10\<rparr> =
     (Inr [''4'', ''5'', ''6''],
      \<lparr>csv_config = malformed_config, parse_from = 6, parse_to = 15, cur_pos = 16\<rparr>) \<and>
   length [''4'', ''5'', ''6''] = get_n_columns malformed_config"
proof -
  define p where
    "p = \<lparr>csv_config = malformed_config, parse_from = 6, parse_to = 15, cur_pos = 6\<rparr>"
  define q where
    "q = \<lparr>csv_config = malformed_config, parse_from = 6, parse_to = 15, cur_pos = 10\<rparr>"
  define q' where
    "q' = \<lparr>csv_config = malformed_config, parse_from = 6, parse_to = 15, cur_pos = 16\<rparr>"
  have ok: "parser_ok p" by (simp add: p_def parser_ok_def malformed_config_def)
  have o: "owned_line_starts malformed_config 6 15 = [6, 10]" by code_simp
  have l: "spec_line (csv_text malformed_config) (line_terminator malformed_config) 6 = ''1,2''"
    by code_simp
  have sp: "pcp_split ''1,2'' (length ''1,2'') (CHR '','') = Inr [''1'', ''2'']" by code_simp
  have n: "get_n_columns malformed_config = 3"
    by (simp add: get_n_columns_def malformed_config_def)
  have ft: "get_field_terminator malformed_config = CHR '',''"
    by (simp add: get_field_terminator_def malformed_config_def)
  have 1: "fst (get_row q) = Inr [''4'', ''5'', ''6'']" unfolding q_def by code_simp
  have 2: "snd (get_row q) = q'" unfolding q_def q'_def by code_simp
  from 1 2 have g: "get_row q = (Inr [''4'', ''5'', ''6''], q')" by (simp add: prod_eq_iff)
  from column_mismatch_is_error[of p 6 "[10]" "''1,2''" "[''1'', ''2'']" "[]" p,
      THEN conjunct1] ok o l sp n ft
  have e: "\<exists>prefix. fst (get_row p) = Inl (PCPCsvError (prefix @ ''1,2''))"
    by (simp add: p_def)
  from column_mismatch_is_error[of q 0 "[]" "[]" "[]" "[''4'', ''5'', ''6'']" q',
      THEN conjunct2] g
  have "length [''4'', ''5'', ''6''] = get_n_columns malformed_config"
    by (simp add: q_def)
  with ok o sp e g show ?thesis unfolding p_def q_def q'_def by blast
qed

text \<open>
  C5. A configuration that was constructed has as column count the number of fields
  of the first line of the buffer (the bytes before the first line terminator, split
  by the field splitter); its body offset is 0 without a header line and the length
  of the first line plus 1 with one; with a header line the header names are the
  fields of the first line.
\<close>

theorem CsvConfig_new_schema:
  assumes "CsvConfig_new sg file h ft lt = Inr cfg"
  shows "\<exists>text. file = Some text \<and>
           get_current_line text (length text) 0 lt = Inr (0, length (spec_line text lt 0)) \<and>
           pcp_split (spec_line text lt 0) (length (spec_line text lt 0)) ft =
             Inr (spec_fields ft [] (spec_line text lt 0)) \<and>
           get_n_columns cfg = length (spec_fields ft [] (spec_line text lt 0)) \<and>
           body_offset cfg = (if h then length (spec_line text lt 0) + 1 else 0) \<and>
           get_headers cfg =
             (if h then Inr (spec_fields ft [] (spec_line text lt 0))
              else Inl PCPAssertionFailed)"
proof -
  from CsvConfig_new_Inr[OF assms] obtain buf where
    f: "file = Some buf" and n: "1 \<le> length buf" and
    c: "cfg = \<lparr>has_header_line = h, field_terminator = ft, line_terminator = lt,
                  csv_size = length buf, csv_text = buf,
                  headers = (if h then spec_fields ft [] (spec_line buf lt 0) else []),
                  header_length = (if h then Some (length (spec_line buf lt 0)) else None),
                  n_columns = length (spec_fields ft [] (spec_line buf lt 0))\<rparr>"
    by blast
  from n have "0 < length buf" by arith
  from get_current_line_spec[OF this, of lt]
  have g: "get_current_line buf (length buf) 0 lt = Inr (0, length (spec_line buf lt 0))"
    by auto
  have sp: "pcp_split (spec_line buf lt 0) (length (spec_line buf lt 0)) ft =
      Inr (spec_fields ft [] (spec_line buf lt 0))"
    using pcp_split_spec[of "length (spec_line buf lt 0)" "spec_line buf lt 0" ft] by simp
  from f g sp c show ?thesis
    by (simp add: get_n_columns_def body_offset_def get_headers_def)
qed

theorem CsvConfig_new_schema_witness:
  "CsvConfig_new True (Some ''a,b,c\<newline>1,2,3\<newline>4,5,6\<newline>'') True (CHR '','') (CHR ''\<newline>'') =
     Inr example_config \<and>
   get_n_columns example_config = 3 \<and> body_offset example_config = 6 \<and>
   get_headers example_config = Inr [''a'', ''b'', ''c'']"
proof -
  have c: "CsvConfig_new True (Some ''a,b,c\<newline>1,2,3\<newline>4,5,6\<newline>'') True (CHR '','')
      (CHR ''\<newline>'') = Inr example_config"
    by code_simp
  from CsvConfig_new_schema[OF c]
  have "get_n_columns example_config =
      length (spec_fields (CHR '','') [] (spec_line ''a,b,c\<newline>1,2,3\<newline>4,5,6\<newline>'' (CHR ''\<newline>'') 0))"
    and "body_offset example_config =
      length (spec_line ''a,b,c\<newline>1,2,3\<newline>4,5,6\<newline>'' (CHR ''\<newline>'') 0) + 1"
    and "get_headers example_config =
      Inr (spec_fields (CHR '','') [] (spec_line ''a,b,c\<newline>1,2,3\<newline>4,5,6\<newline>'' (CHR ''\<newline>'') 0))"
    by simp_all
  then show ?thesis using c by (simp add: spec_line_def)
qed

text \<open>
  C6. Once a call of \<open>get_row\<close> has returned the empty vector, every later call
  on the parser returns the empty vector too, in whatever state the parser was.
\<close>

theorem get_row_exhausted_stays:
  assumes "fst (get_row p) = Inr []"
  shows "fst (get_row (after_calls k p)) = Inr []"
proof (cases k)
  case 0
  with assms show ?thesis by simp
next
  case (Suc j)
  obtain p' where g: "get_row p = (Inr [], p')"
    using assms by (cases "get_row p") simp
  from get_row_empty_fixed[OF g] have f: "get_row p' = (Inr [], p')" .
  from after_calls_fixed[OF f] have "after_calls j p' = p'" .
  with g f Suc show ?thesis by simp
qed

theorem get_row_exhausted_stays_witness:
  "fst (get_row \<lparr>csv_config = example_config, parse_from = 15, parse_to = 17,
                 cur_pos = 15\<rparr>) = Inr [] \<and>
   fst (get_row (after_calls 3 \<lparr>csv_config = example_config, parse_from = 15, parse_to = 17,
                                cur_pos = 15\<rparr>)) = Inr []"
proof -
  have a: "fst (get_row \<lparr>csv_config = example_config, parse_from = 15, parse_to = 17,
      cur_pos = 15\<rparr>) = Inr []"
    by code_simp
  from get_row_exhausted_stays[OF a, of 3] a show ?thesis by simp
qed

text \<open>
  C7. The constructor asserts that \<open>parse_from\<close> is at least the body offset and
  that \<open>parse_to\<close> is less than the file size, each after the sentinel has been
  replaced; it does not compare the two. When the assertions hold and \<open>parse_from\<close>
  is greater than \<open>parse_to\<close>, the parser is constructed, and its first call of
  \<open>get_row\<close> returns the empty vector and leaves the parser as it was: the result
  is neither a failed assertion nor a read outside the buffer, for the loop body is
  never entered.
\<close>

theorem empty_range_accepted:
  assumes "f' = (if f = PARSE_FROM_BODY_BEGINNING then body_offset cfg else f)"
    and "t' = (if t = PARSE_TO_FILE_END then filesize cfg - 1 else t)"
    and "body_offset cfg \<le> f'" and "t' < filesize cfg" and "t' < f'"
  shows "\<exists>p. PartialCsvParser_new cfg f t = Inr p \<and> parse_from p = f' \<and> parse_to p = t' \<and>
           cur_pos p = f' \<and> get_row p = (Inr [], p)"
proof -
  define p where "p = \<lparr>csv_config = cfg, parse_from = f', parse_to = t', cur_pos = f'\<rparr>"
  from assms(4) have "filesize cfg \<noteq> 0" by simp
  with assms have "PartialCsvParser_new cfg f t = Inr p"
    by (auto simp: PartialCsvParser_new_def Let_def p_def split: if_splits)
  moreover from assms(5) have "get_row p = (Inr [], p)"
    by (subst get_row.simps) (simp add: p_def)
  ultimately show ?thesis by (simp add: p_def)
qed

theorem empty_range_accepted_witness:
  "body_offset header_only_config = 6 \<and> filesize header_only_config = 5 \<and>
   (\<exists>p. PartialCsvParser_new header_only_config PARSE_FROM_BODY_BEGINNING PARSE_TO_FILE_END =
          Inr p \<and> parse_from p = 6 \<and> parse_to p = 4 \<and> get_row p = (Inr [], p))"
proof -
  have b: "body_offset header_only_config = 6" and s: "filesize header_only_config = 5"
    by (simp_all add: body_offset_def filesize_def header_only_config_def)
  have 1: "(6::nat) = (if PARSE_FROM_BODY_BEGINNING = PARSE_FROM_BODY_BEGINNING
      then body_offset header_only_config else PARSE_FROM_BODY_BEGINNING)"
    using b by simp
  have 2: "(4::nat) = (if PARSE_TO_FILE_END = PARSE_TO_FILE_END
      then filesize header_only_config - 1 else PARSE_TO_FILE_END)"
    using s by simp
  have 3: "body_offset header_only_config \<le> 6" using b by simp
  have 4: "4 < filesize header_only_config" using s by simp
  have 5: "(4::nat) < 6" by simp
  from empty_range_accepted[OF 1 2 3 4 5] b s show ?thesis by blast
qed

text \<open>
  C8. When the field terminator or the line terminator is a byte from 128 to 255, the
  constructor fails on its assertion, whatever the file is and whether or not it can
  be opened: the check comes before the file is opened and before any line is read.
  This holds where \<open>char\<close> is signed and where it is unsigned.
\<close>

theorem CsvConfig_new_rejects_non_ascii:
  assumes "128 \<le> (of_char ft :: int) \<or> 128 \<le> (of_char lt :: int)"
  shows "CsvConfig_new sg file h ft lt = Inl PCPAssertionFailed"
  using assms char_value_ascii[of sg ft] char_value_ascii[of sg lt]
  by (auto simp: CsvConfig_new_def)

theorem CsvConfig_new_rejects_non_ascii_witness:
  "128 \<le> (of_char (CHR 0xE9) :: int) \<and>
   CsvConfig_new True (Some ''a,b'') True (CHR 0xE9) (CHR ''\<newline>'') = Inl PCPAssertionFailed \<and>
   CsvConfig_new False None False (CHR '','') (CHR 0xE9) = Inl PCPAssertionFailed"
proof -
  have a: "128 \<le> (of_char (CHR 0xE9) :: int)" by simp
  then have "128 \<le> (of_char (CHR 0xE9) :: int) \<or> 128 \<le> (of_char (CHR ''\<newline>'') :: int)"
    and "128 \<le> (of_char (CHR '','') :: int) \<or> 128 \<le> (of_char (CHR 0xE9) :: int)"
    by simp_all
  from this(1)[THEN CsvConfig_new_rejects_non_ascii] this(2)[THEN CsvConfig_new_rejects_non_ascii] a
  show ?thesis by simp
qed

text \<open>
  C9, as stated: an iteration of the loop of \<open>get_row\<close> that does not return
  increases the cursor by the length of the skipped line plus one. It does not: with
  the cursor at offset 7, inside the line \<open>1,2,3\<close> that starts at offset 6 and has
  length 5, the iteration sets the cursor to 12, an increase of 5 and not of 6.
\<close>

theorem skip_increase_counterexample:
  "get_current_line (content example_config) (filesize example_config) 7
     (get_line_terminator example_config) = Inr (6, 5) \<and>
   get_row_body \<lparr>csv_config = example_config, parse_from = 7, parse_to = 17, cur_pos = 7\<rparr> =
     Next_iteration
       \<lparr>csv_config = example_config, parse_from = 7, parse_to = 17, cur_pos = 12\<rparr> \<and>
   cur_pos \<lparr>csv_config = example_config, parse_from = 7, parse_to = 17, cur_pos = 12\<rparr> \<noteq>
     cur_pos \<lparr>csv_config = example_config, parse_from = 7, parse_to = 17, cur_pos = 7\<rparr> + 5 + 1"
proof -
  have "get_current_line (content example_config) (filesize example_config) 7
      (get_line_terminator example_config) = Inr (6, 5)"
    by code_simp
  moreover have
    "get_row_body \<lparr>csv_config = example_config, parse_from = 7, parse_to = 17, cur_pos = 7\<rparr> =
     Next_iteration
       \<lparr>csv_config = example_config, parse_from = 7, parse_to = 17, cur_pos = 12\<rparr>"
    by code_simp
  ultimately show ?thesis by simp
qed

text \<open>
  C9, amended. Every call of \<open>get_row\<close> terminates: the loop ends within
  \<open>parse_to + 1 - cur_pos\<close> iterations. An iteration either returns or sets the
  cursor to the start of the line it skips plus that line's length plus one; the
  line starts before the cursor, so the cursor grows by at least one byte and by at
  most the line's length, and it stays at most \<open>parse_to\<close>, which does not
  change. With the cursor beyond \<open>parse_to\<close> the call returns the empty vector at
  once, and \<open>parse_to\<close> of a constructed parser is less than the file size.
\<close>

theorem get_row_terminates:
  "get_row_fuel (Suc (parse_to p) - cur_pos p) p = Some (get_row p) \<and>
   (get_row_body p = Next_iteration p' \<longrightarrow>
      (\<exists>line line_length.
         get_current_line (content (csv_config p)) (filesize (csv_config p)) (cur_pos p)
           (get_line_terminator (csv_config p)) = Inr (line, line_length) \<and>
         line < cur_pos p \<and>
         cur_pos p' = line + line_length + 1 \<and>
         cur_pos p < cur_pos p' \<and> cur_pos p' \<le> cur_pos p + line_length \<and>
         cur_pos p' \<le> parse_to p \<and> parse_to p' = parse_to p)) \<and>
   (parse_to p < cur_pos p \<longrightarrow> get_row p = (Inr [], p)) \<and>
   (PartialCsvParser_new cfg f t = Inr p \<longrightarrow> parse_to p < filesize cfg)"
proof (intro conjI impI)
  show "get_row_fuel (Suc (parse_to p) - cur_pos p) p = Some (get_row p)"
    by (rule get_row_fuel_enough) simp
next
  assume b: "get_row_body p = Next_iteration p'"
  from get_row_body_Next[OF b] obtain line line_length where
    g: "get_current_line (content (csv_config p)) (filesize (csv_config p)) (cur_pos p)
          (get_line_terminator (csv_config p)) = Inr (line, line_length)"
    and l: "line < cur_pos p" "line + line_length + 1 \<le> parse_to p"
    and p': "p' = p\<lparr>cur_pos := line + line_length + 1\<rparr>"
    by blast
  from get_current_line_bounds(2)[OF g] have "cur_pos p \<le> line + line_length" .
  with g l p' show "\<exists>line line_length.
         get_current_line (content (csv_config p)) (filesize (csv_config p)) (cur_pos p)
           (get_line_terminator (csv_config p)) = Inr (line, line_length) \<and>
         line < cur_pos p \<and>
         cur_pos p' = line + line_length + 1 \<and>
         cur_pos p < cur_pos p' \<and> cur_pos p' \<le> cur_pos p + line_length \<and>
         cur_pos p' \<le> parse_to p \<and> parse_to p' = parse_to p"
    by (intro exI[of _ line] exI[of _ line_length]) simp
next
  assume "parse_to p < cur_pos p"
  then show "get_row p = (Inr [], p)"
    by (subst get_row.simps) simp
next
  assume "PartialCsvParser_new cfg f t = Inr p"
  then show "parse_to p < filesize cfg"
    by (auto simp: PartialCsvParser_new_def Let_def split: if_splits)
qed

theorem get_row_terminates_witness:
  "get_row_body \<lparr>csv_config = example_config, parse_from = 7, parse_to = 17, cur_pos = 7\<rparr> =
     Next_iteration
       \<lparr>csv_config = example_config, parse_from = 7, parse_to = 17, cur_pos = 12\<rparr> \<and>
   get_row_fuel 11 \<lparr>csv_config = example_config, parse_from = 7, parse_to = 17, cur_pos = 7\<rparr> =
     Some (get_row \<lparr>csv_config = example_config, parse_from = 7, parse_to = 17, cur_pos = 7\<rparr>) \<and>
   (\<exists>line line_length.
      get_current_line (content example_config) (filesize example_config) 7
        (get_line_terminator example_config) = Inr (line, line_length) \<and>
      line < 7 \<and> (12::nat) = line + line_length + 1) \<and>
   PartialCsvParser_new example_config 7 17 =
     Inr \<lparr>csv_config = example_config, parse_from = 7, parse_to = 17, cur_pos = 7\<rparr> \<and>
   (17::nat) < filesize example_config \<and>
   get_row \<lparr>csv_config = example_config, parse_from = 7, parse_to = 17, cur_pos = 18\<rparr> =
     (Inr [], \<lparr>csv_config = example_config, parse_from = 7, parse_to = 17, cur_pos = 18\<rparr>)"
proof -
  define p where
    "p = \<lparr>csv_config = example_config, parse_from = 7, parse_to = 17, cur_pos = 7\<rparr>"
  define p' where
    "p' = \<lparr>csv_config = example_config, parse_from = 7, parse_to = 17, cur_pos = 12\<rparr>"
  define q where
    "q = \<lparr>csv_config = example_config, parse_from = 7, parse_to = 17, cur_pos = 18\<rparr>"
  have b: "get_row_body p = Next_iteration p'" unfolding p_def p'_def by code_simp
  have n: "PartialCsvParser_new example_config 7 17 = Inr p"
    by (simp add: PartialCsvParser_new_def PARSE_FROM_BODY_BEGINNING_def PARSE_TO_FILE_END_def
        SIZE_MAX_def Let_def body_offset_def filesize_def example_config_def p_def)
  note t = get_row_terminates[of p p' example_config 7 17]
  from t have 1: "get_row_fuel 11 p = Some (get_row p)" by (simp add: p_def)
  from t b have 2: "\<exists>line line_length.
      get_current_line (content example_config) (filesize example_config) 7
        (get_line_terminator example_config) = Inr (line, line_length) \<and>
      line < 7 \<and> (12::nat) = line + line_length + 1"
    by (auto simp: p_def p'_def)
  from t n have 3: "(17::nat) < filesize example_config" by (simp add: p_def)
  from get_row_terminates[of q q example_config 7 17]
  have 4: "get_row q = (Inr [], q)" by (simp add: q_def)
  from b 1 2 n 3 4 show ?thesis unfolding p_def p'_def q_def by blast
qed

text \<open>
  C10. When a call of \<open>get_row\<close> on a parser in a good state ends with the content
  error, the error is that of the first line the range owns from the cursor on, and
  the parser is left with its cursor behind that line and its terminator: the cursor
  was moved before the fields were counted. The next call therefore does not see the
  malformed line again: it returns the outcome of the next line the range owns, or
  the empty vector when there is none.
\<close>

theorem mismatch_advances_cursor:
  assumes "parser_ok p" and "get_row p = (Inl (PCPCsvError msg), p')"
  shows "\<exists>s rest.
           owned_line_starts (csv_config p) (cur_pos p) (parse_to p) = s # rest \<and>
           spec_row (csv_config p) s = Inl (PCPCsvError msg) \<and>
           p' = p\<lparr>cur_pos := s + length (spec_line (csv_text (csv_config p))
                                     (line_terminator (csv_config p)) s) + 1\<rparr> \<and>
           cur_pos p \<le> s \<and> s < cur_pos p' \<and>
           fst (get_row p') =
             (case rest of [] \<Rightarrow> Inr [] | s' # rest' \<Rightarrow> spec_row (csv_config p) s')"
proof -
  define cfg where "cfg = csv_config p"
  define len where "len = (\<lambda>s. length (spec_line (csv_text cfg) (line_terminator cfg) s))"
  note spec = get_row_spec[OF assms(1), folded cfg_def]
  from assms(2) spec obtain s rest where
    o: "owned_line_starts cfg (cur_pos p) (parse_to p) = s # rest"
    by (cases "owned_line_starts cfg (cur_pos p) (parse_to p)") auto
  with spec have g: "get_row p = (spec_row cfg s, p\<lparr>cur_pos := s + len s + 1\<rparr>)"
    and r: "owned_line_starts cfg (s + len s + 1) (parse_to p) = rest"
    by (simp_all add: len_def)
  from g assms(2) have e: "spec_row cfg s = Inl (PCPCsvError msg)"
    and p': "p' = p\<lparr>cur_pos := s + len s + 1\<rparr>" by simp_all
  have "s \<in> set (owned_line_starts cfg (cur_pos p) (parse_to p))" using o by simp
  then have cs: "cur_pos p \<le> s" by (auto simp: owned_line_starts_def)
  have ok': "parser_ok p'" using assms(1) p' by simp
  have c': "csv_config p' = cfg" "cur_pos p' = s + len s + 1" "parse_to p' = parse_to p"
    using p' by (simp_all add: cfg_def)
  have "fst (get_row p') = (case rest of [] \<Rightarrow> Inr [] | s' # rest' \<Rightarrow> spec_row cfg s')"
  proof (cases rest)
    case Nil
    with get_row_spec[OF ok'] r c' show ?thesis by simp
  next
    case (Cons s' rest')
    with get_row_spec[OF ok'] r c' show ?thesis by simp
  qed
  with o e p' cs c'(2) show ?thesis
    unfolding cfg_def len_def by auto
qed

theorem mismatch_advances_cursor_witness:
  "parser_ok \<lparr>csv_config = malformed_config, parse_from = 6, parse_to = 15, cur_pos = 6\<rparr> \<and>
   fst (get_row \<lparr>csv_config = malformed_config, parse_from = 6, parse_to = 15, cur_pos = 6\<rparr>) =
     Inl (PCPCsvError
       ''The following line has 2 columns, while the first line has 3 columns.\<newline>1,2'') \<and>
   snd (get_row \<lparr>csv_config = malformed_config, parse_from = 6, parse_to = 15, cur_pos = 6\<rparr>) =
     \<lparr>csv_config = malformed_config, parse_from = 6, parse_to = 15, cur_pos = 10\<rparr> \<and>
   fst (get_row \<lparr>csv_config = malformed_config, parse_from = 6, parse_to = 15, cur_pos = 10\<rparr>) =
     Inr [''4'', ''5'', ''6''] \<and>
   owned_line_starts malformed_config 6 15 = [6, 10]"
proof -
  define p where
    "p = \<lparr>csv_config = malformed_config, parse_from = 6, parse_to = 15, cur_pos = 6\<rparr>"
  define q where
    "q = \<lparr>csv_config = malformed_config, parse_from = 6, parse_to = 15, cur_pos = 10\<rparr>"
  have ok: "parser_ok p" by (simp add: p_def parser_ok_def malformed_config_def)
  have 1: "fst (get_row p) = Inl (PCPCsvError
      ''The following line has 2 columns, while the first line has 3 columns.\<newline>1,2'')"
    unfolding p_def by code_simp
  have 2: "snd (get_row p) = q" unfolding p_def q_def by code_simp
  from 1 2 have g: "get_row p = (Inl (PCPCsvError
      ''The following line has 2 columns, while the first line has 3 columns.\<newline>1,2''), q)"
    by (simp add: prod_eq_iff)
  have o: "owned_line_starts malformed_config 6 15 = [6, 10]" by code_simp
  have r: "spec_row malformed_config 10 = Inr [''4'', ''5'', ''6'']" by code_simp
  from mismatch_advances_cursor[OF ok g] obtain s rest where
    "owned_line_starts (csv_config p) (cur_pos p) (parse_to p) = s # rest"
    "fst (get_row q) =
       (case rest of [] \<Rightarrow> Inr [] | s' # rest' \<Rightarrow> spec_row (csv_config p) s')"
    by blast
  with o r have "fst (get_row q) = Inr [''4'', ''5'', ''6'']"
    by (auto simp: p_def)
  with ok 1 2 o show ?thesis unfolding p_def q_def by blast
qed

end
